theory Spec2Isabelle
  imports Main "HOL-Library.Word"
begin

unbundle bit_operations_syntax

section \<open>Python values and the standard-library operations the tools call\<close>

text \<open>
  A Python \<open>bytes\<close> object is a list of 8-bit words; a Python \<open>str\<close> is a list of
  Unicode code points. Arguments documented as "bytes or string" are values of
  \<open>py_val\<close>, and every \<open>isinstance(v, str)\<close> test of the source is a case
  distinction on it. Exceptions are values of \<open>py_error\<close>.
\<close>

type_synonym byte = "8 word"
type_synonym pystr = "nat list"

datatype py_val = Str pystr | Bytes "byte list"

datatype py_error = ZeroDivisionError | UnicodeEncodeError | ValueError | BinasciiError

definition py :: "string \<Rightarrow> pystr" where
  "py s = map of_char s"

subsection \<open>\<open>str.encode()\<close>: UTF-8\<close>

definition is_surrogate :: "nat \<Rightarrow> bool" where
  "is_surrogate c \<longleftrightarrow> 0xD800 \<le> c \<and> c \<le> 0xDFFF"

definition utf8_encode_char :: "nat \<Rightarrow> byte list" where
  "utf8_encode_char c =
     (if c < 0x80 then [of_nat c]
      else if c < 0x800 then [of_nat (0xC0 + c div 64), of_nat (0x80 + c mod 64)]
      else if c < 0x10000 then
        [of_nat (0xE0 + c div 4096), of_nat (0x80 + (c div 64) mod 64), of_nat (0x80 + c mod 64)]
      else
        [of_nat (0xF0 + c div 262144), of_nat (0x80 + (c div 4096) mod 64),
         of_nat (0x80 + (c div 64) mod 64), of_nat (0x80 + c mod 64)])"

text \<open>\<open>s.encode()\<close> raises \<open>UnicodeEncodeError\<close> on a lone surrogate.\<close>

definition str_encode :: "pystr \<Rightarrow> py_error + byte list" where
  "str_encode s =
     (if list_ex is_surrogate s then Inl UnicodeEncodeError
      else Inr (concat (map utf8_encode_char s)))"

subsection \<open>\<open>str.isspace\<close>, \<open>str.strip\<close>, UTF-8 decoding, \<open>base64.b64decode\<close>\<close>

definition py_isspace :: "nat \<Rightarrow> bool" where
  "py_isspace c \<longleftrightarrow>
     c \<in> set [9, 10, 11, 12, 13, 28, 29, 30, 31, 32, 133, 160, 5760,
              8192, 8193, 8194, 8195, 8196, 8197, 8198, 8199, 8200, 8201, 8202,
              8232, 8233, 8239, 8287, 12288]"

definition str_strip :: "pystr \<Rightarrow> pystr" where
  "str_strip s = rev (dropWhile py_isspace (rev (dropWhile py_isspace s)))"

definition is_cont :: "nat \<Rightarrow> bool" where
  "is_cont b \<longleftrightarrow> 0x80 \<le> b \<and> b < 0xC0"

definition bad_second3 :: "nat \<Rightarrow> nat \<Rightarrow> bool" where
  "bad_second3 b0 b1 \<longleftrightarrow> \<not> is_cont b1 \<or> (b0 = 0xE0 \<and> b1 < 0xA0) \<or> (b0 = 0xED \<and> 0xA0 \<le> b1)"

definition bad_second4 :: "nat \<Rightarrow> nat \<Rightarrow> bool" where
  "bad_second4 b0 b1 \<longleftrightarrow> \<not> is_cont b1 \<or> (b0 = 0xF0 \<and> b1 < 0x90) \<or> (b0 = 0xF4 \<and> 0x90 \<le> b1)"

fun utf8_ignore :: "nat list \<Rightarrow> pystr" where
  "utf8_ignore [] = []"
| "utf8_ignore (b0 # r) =
    (if b0 < 0x80 then b0 # utf8_ignore r
     else if b0 < 0xC2 then utf8_ignore r
     else if b0 < 0xE0 then
       (case r of
          [] \<Rightarrow> []
        | b1 # r1 \<Rightarrow>
            if is_cont b1 then ((b0 - 0xC0) * 64 + (b1 - 0x80)) # utf8_ignore r1
            else utf8_ignore r)
     else if b0 < 0xF0 then
       (case r of
          [] \<Rightarrow> []
        | b1 # r1 \<Rightarrow>
            if bad_second3 b0 b1 then utf8_ignore r
            else (case r1 of
                    [] \<Rightarrow> []
                  | b2 # r2 \<Rightarrow>
                      if \<not> is_cont b2 then utf8_ignore r1
                      else ((b0 - 0xE0) * 4096 + (b1 - 0x80) * 64 + (b2 - 0x80)) # utf8_ignore r2))
     else if b0 < 0xF5 then
       (case r of
          [] \<Rightarrow> []
        | b1 # r1 \<Rightarrow>
            if bad_second4 b0 b1 then utf8_ignore r
            else (case r1 of
                    [] \<Rightarrow> []
                  | b2 # r2 \<Rightarrow>
                      if \<not> is_cont b2 then utf8_ignore r1
                      else (case r2 of
                              [] \<Rightarrow> []
                            | b3 # r3 \<Rightarrow>
                                if \<not> is_cont b3 then utf8_ignore r2
                                else ((b0 - 0xF0) * 262144 + (b1 - 0x80) * 4096
                                        + (b2 - 0x80) * 64 + (b3 - 0x80)) # utf8_ignore r3)))
     else utf8_ignore r)"

definition utf8_decode_ignore :: "byte list \<Rightarrow> pystr" where
  "utf8_decode_ignore bs = utf8_ignore (map unat bs)"

definition b64_value :: "nat \<Rightarrow> nat option" where
  "b64_value c =
     (if 65 \<le> c \<and> c \<le> 90 then Some (c - 65)
      else if 97 \<le> c \<and> c \<le> 122 then Some (c - 97 + 26)
      else if 48 \<le> c \<and> c \<le> 57 then Some (c - 48 + 52)
      else if c = 43 then Some 62
      else if c = 47 then Some 63
      else None)"

fun a2b_loop :: "nat \<Rightarrow> nat \<Rightarrow> nat \<Rightarrow> byte list \<Rightarrow> byte list \<Rightarrow> byte list option" where
  "a2b_loop quad_pos leftchar pads [] out = (if quad_pos \<noteq> 0 then None else Some out)"
| "a2b_loop quad_pos leftchar pads (c # cs) out =
     (if c = 61 then
        (if quad_pos \<ge> 2 then
           (if quad_pos + (pads + 1) \<ge> 4 then Some out
            else a2b_loop quad_pos leftchar (pads + 1) cs out)
         else a2b_loop quad_pos leftchar pads cs out)
      else
        (case b64_value (unat c) of
           None \<Rightarrow> a2b_loop quad_pos leftchar pads cs out
         | Some v \<Rightarrow>
             (if quad_pos = 0 then a2b_loop 1 v 0 cs out
              else if quad_pos = 1 then
                a2b_loop 2 (v mod 16) 0 cs (out @ [of_nat (leftchar * 4 + v div 16)])
              else if quad_pos = 2 then
                a2b_loop 3 (v mod 4) 0 cs (out @ [of_nat (leftchar * 16 + v div 4)])
              else a2b_loop 0 0 0 cs (out @ [of_nat (leftchar * 64 + v)]))))"

definition a2b_base64 :: "byte list \<Rightarrow> py_error + byte list" where
  "a2b_base64 cs = (case a2b_loop 0 0 0 cs [] of None \<Rightarrow> Inl BinasciiError | Some out \<Rightarrow> Inr out)"

definition ascii_encode :: "pystr \<Rightarrow> py_error + byte list" where
  "ascii_encode s = (if list_ex (\<lambda>c. 128 \<le> c) s then Inl ValueError else Inr (map of_nat s))"

definition b64decode :: "py_val \<Rightarrow> py_error + byte list" where
  "b64decode s =
     (case s of
        Str t \<Rightarrow> (case ascii_encode t of Inl e \<Rightarrow> Inl e | Inr b \<Rightarrow> a2b_base64 b)
      | Bytes b \<Rightarrow> a2b_base64 b)"

definition decode_base64 :: "py_val \<Rightarrow> pystr option" where
  "decode_base64 data =
     (case (case data of Str s \<Rightarrow> b64decode (Str (str_strip s)) | Bytes b \<Rightarrow> b64decode (Bytes b)) of
        Inl e \<Rightarrow> None
      | Inr decoded_bytes \<Rightarrow> Some (utf8_decode_ignore decoded_bytes))"



section \<open>decoder.py\<close>

definition rot13_map :: "nat \<Rightarrow> nat" where
  "rot13_map c =
     (if 0x41 \<le> c \<and> c \<le> 0x4D then c + 13
      else if 0x4E \<le> c \<and> c \<le> 0x5A then c - 13
      else if 0x61 \<le> c \<and> c \<le> 0x6D then c + 13
      else if 0x6E \<le> c \<and> c \<le> 0x7A then c - 13
      else c)"

definition decode_rot13 :: "py_val \<Rightarrow> pystr option" where
  "decode_rot13 data = (case data of Str s \<Rightarrow> Some (map rot13_map s) | Bytes b \<Rightarrow> None)"

definition str_lower :: "pystr \<Rightarrow> pystr" where
  "str_lower s = map (\<lambda>c. if 65 \<le> c \<and> c \<le> 90 then c + 32 else c) s"

fun decode_layers :: "py_val \<Rightarrow> pystr list \<Rightarrow> py_val option" where
  "decode_layers result [] = Some result"
| "decode_layers result (layer # layers) =
     (if str_lower layer = py ''base64'' then
        (case decode_base64 result of
           None \<Rightarrow> None
         | Some r \<Rightarrow> decode_layers (Str r) layers)
      else if str_lower layer = py ''rot13'' then
        (case decode_rot13 result of
           None \<Rightarrow> None
         | Some r \<Rightarrow> decode_layers (Str r) layers)
      else decode_layers result layers)"

definition decode_multi_layer :: "py_val \<Rightarrow> pystr list \<Rightarrow> py_val option" where
  "decode_multi_layer data layers = decode_layers data layers"

definition base64_chars :: "nat set" where
  "base64_chars = set (py ''ABCDEFGHIJKLMNOPQRSTUVWXYZabcdefghijklmnopqrstuvwxyz0123456789+/='')"

definition try_base64 :: "pystr \<Rightarrow> (string \<times> pystr) list \<Rightarrow> (string \<times> pystr) list" where
  "try_base64 data results =
     (if list_all (\<lambda>c. c \<in> base64_chars \<or> py_isspace c) data then
        (case decode_base64 (Str data) of
           None \<Rightarrow> results
         | Some b64_result \<Rightarrow>
             if b64_result \<noteq> [] then results @ [(''base64'', b64_result)] else results)
      else results)"

definition try_rot13 ::
  "pystr \<Rightarrow> pystr option \<Rightarrow> (string \<times> pystr) list \<Rightarrow> (string \<times> pystr) list" where
  "try_rot13 data rot13_result results =
     (case rot13_result of
        None \<Rightarrow> results
      | Some r \<Rightarrow> if r \<noteq> [] \<and> r \<noteq> data then results @ [(''rot13'', r)] else results)"

definition try_base64_then_rot13 :: "(string \<times> pystr) list \<Rightarrow> (string \<times> pystr) list" where
  "try_base64_then_rot13 results =
     (case map_of results ''base64'' of
        None \<Rightarrow> results
      | Some b64 \<Rightarrow>
          (case decode_rot13 (Str b64) of
             None \<Rightarrow> results
           | Some b64_rot13 \<Rightarrow>
               if b64_rot13 \<noteq> [] then results @ [(''base64_then_rot13'', b64_rot13)]
               else results))"

definition try_rot13_then_base64 ::
  "pystr option \<Rightarrow> (string \<times> pystr) list \<Rightarrow> (string \<times> pystr) list" where
  "try_rot13_then_base64 rot13_result results =
     (case rot13_result of
        None \<Rightarrow> results
      | Some r \<Rightarrow>
          if r \<noteq> [] then
            (case decode_base64 (Str r) of
               None \<Rightarrow> results
             | Some rot13_b64 \<Rightarrow>
                 if rot13_b64 \<noteq> [] then results @ [(''rot13_then_base64'', rot13_b64)]
                 else results)
          else results)"

definition auto_detect_and_decode :: "pystr \<Rightarrow> (string \<times> pystr) list" where
  "auto_detect_and_decode data =
     (let results = try_base64 data [];
          rot13_result = decode_rot13 (Str data);
          results = try_rot13 data rot13_result results;
          results = try_base64_then_rot13 results;
          results = try_rot13_then_base64 rot13_result results
      in results)"

section \<open>fragment\_assembler.py\<close>

text \<open>
  The two conversions at the head of \<open>xor_decrypt\<close> and \<open>aes_decrypt\<close>:
  \<^verbatim>\<open>if isinstance(v, str): v = v.encode()\<close>.
\<close>

definition as_bytes :: "py_val \<Rightarrow> py_error + byte list" where
  "as_bytes v = (case v of Str s \<Rightarrow> str_encode s | Bytes b \<Rightarrow> Inr b)"

text \<open>
  \<^verbatim>\<open>key_repeated = (key * (len(data) // len(key) + 1))[:len(data)]\<close>;
  the floor division raises \<open>ZeroDivisionError\<close> when the key is empty.
\<close>

definition key_repeated :: "byte list \<Rightarrow> byte list \<Rightarrow> py_error + byte list" where
  "key_repeated data key =
     (if length key = 0 then Inl ZeroDivisionError
      else Inr (take (length data) (concat (replicate (length data div length key + 1) key))))"

definition xor_decrypt :: "py_val \<Rightarrow> py_val \<Rightarrow> py_error + byte list" where
  "xor_decrypt data key =
     (case as_bytes data of
        Inl e \<Rightarrow> Inl e
      | Inr d \<Rightarrow>
         (case as_bytes key of
            Inl e \<Rightarrow> Inl e
          | Inr k \<Rightarrow>
             (case key_repeated d k of
                Inl e \<Rightarrow> Inl e
              | Inr kr \<Rightarrow> Inr (map (\<lambda>(d, k). d XOR k) (zip d kr)))))"

text \<open>
  The collaborators \<open>aes_decrypt\<close> and \<open>decrypt_final\<close> call and that are not part of
  the repository: SHA-256 of \<open>hashlib\<close>, the AES-CBC decryption of the \<open>cryptography\<close>
  package on block-aligned data, and \<open>str.isalpha\<close> (a table of the Unicode database).
  They are parameters of the model; every theorem holds for all of them.
\<close>

record externals =
  sha256 :: "byte list \<Rightarrow> byte list"
  aes_cbc_decrypt :: "byte list \<Rightarrow> byte list \<Rightarrow> byte list \<Rightarrow> byte list"
  isalpha :: "nat \<Rightarrow> bool"

definition bytes_ljust :: "nat \<Rightarrow> byte \<Rightarrow> byte list \<Rightarrow> byte list" where
  "bytes_ljust width fillbyte b = b @ replicate (width - length b) fillbyte"

definition normalize_key :: "byte list \<Rightarrow> byte list" where
  "normalize_key key =
     (if length key < 16 then bytes_ljust 16 0 key
      else if length key < 24 then take 16 key
      else if length key < 32 then bytes_ljust 24 0 key
      else take 32 key)"

definition pkcs7_unpad :: "byte list \<Rightarrow> byte list option" where
  "pkcs7_unpad data =
     (if data = [] \<or> length data mod 16 \<noteq> 0 then None
      else let n = unat (last data) in
        if n = 0 \<or> 16 < n then None
        else if list_all (\<lambda>b. b = last data) (drop (length data - n) data)
        then Some (take (length data - n) data)
        else None)"

definition aes_decrypt ::
  "externals \<Rightarrow> byte list \<Rightarrow> py_val \<Rightarrow> byte list option \<Rightarrow> py_error + byte list" where
  "aes_decrypt ext encrypted_data key iv =
     (case as_bytes key of
        Inl e \<Rightarrow> Inl e
      | Inr k \<Rightarrow>
          (let key = normalize_key k;
               iv = (case iv of None \<Rightarrow> take 16 (sha256 ext key) | Some v \<Rightarrow> v)
           in if length key \<noteq> 16 \<and> length key \<noteq> 24 \<and> length key \<noteq> 32 then Inl ValueError
              else if length iv \<noteq> 16 then Inl ValueError
              else if length encrypted_data mod 16 \<noteq> 0 then Inl ValueError
              else (let decrypted_padded = aes_cbc_decrypt ext key iv encrypted_data
                    in case pkcs7_unpad decrypted_padded of
                         Some decrypted \<Rightarrow> Inr decrypted
                       | None \<Rightarrow> Inr decrypted_padded)))"

definition encrypted_bytes :: "py_val \<Rightarrow> py_error + byte list" where
  "encrypted_bytes encrypted_data =
     (case encrypted_data of
        Str s \<Rightarrow> (case b64decode (Str s) of Inr b \<Rightarrow> Inr b | Inl e \<Rightarrow> str_encode s)
      | Bytes b \<Rightarrow> Inr b)"

definition xor_result :: "byte list \<Rightarrow> py_val \<Rightarrow> pystr option" where
  "xor_result eb key =
     (case xor_decrypt (Bytes eb) key of
        Inr decrypted \<Rightarrow> Some (utf8_decode_ignore decrypted)
      | Inl e \<Rightarrow> None)"

definition aes_result :: "externals \<Rightarrow> byte list \<Rightarrow> py_val \<Rightarrow> pystr option" where
  "aes_result ext eb key =
     (case aes_decrypt ext eb key None of
        Inr decrypted \<Rightarrow> Some (utf8_decode_ignore decrypted)
      | Inl e \<Rightarrow> None)"

fun best_result :: "(nat \<Rightarrow> bool) \<Rightarrow> (string \<times> pystr) list \<Rightarrow> pystr option" where
  "best_result alpha [] = None"
| "best_result alpha ((method_name, result) # rest) =
     (if result \<noteq> [] \<and> list_ex alpha result then Some result else best_result alpha rest)"

definition decrypt_final ::
  "externals \<Rightarrow> py_val \<Rightarrow> py_val \<Rightarrow> string \<Rightarrow> py_error + pystr option" where
  "decrypt_final ext encrypted_data key method =
     (case encrypted_bytes encrypted_data of
        Inl e \<Rightarrow> Inl e
      | Inr eb \<Rightarrow>
          (let results = [];
               results =
                 (if method = ''xor'' \<or> method = ''auto'' then
                    (case xor_result eb key of
                       Some decrypted_str \<Rightarrow> results @ [(''xor'', decrypted_str)]
                     | None \<Rightarrow> results)
                  else results);
               results =
                 (if method = ''aes'' \<or> method = ''auto'' then
                    (case aes_result ext eb key of
                       Some decrypted_str \<Rightarrow> results @ [(''aes'', decrypted_str)]
                     | None \<Rightarrow> results)
                  else results)
           in if method = ''auto'' then
                (case best_result (isalpha ext) results of
                   Some result \<Rightarrow> Inr (Some result)
                 | None \<Rightarrow> (case results of [] \<Rightarrow> Inr None | r # _ \<Rightarrow> Inr (Some (snd r))))
              else Inr (map_of results method)))"


section \<open>lsb\_extractor.py\<close>

text \<open>
  The conversion of the bit string of one channel into bytes and text, lines 102 to 129 of
  \<open>extract_lsb_from_channel\<close>: \<^verbatim>\<open>for i in range(0, len(binary_string) - 7, 8)\<close>
  visits the complete groups of 8 bits, \<open>int(byte, 2)\<close> reads one most significant bit first.
\<close>

definition int_of_bits :: "bool list \<Rightarrow> nat" where
  "int_of_bits bs = foldl (\<lambda>acc b. 2 * acc + (if b then 1 else 0)) 0 bs"

definition printable :: "nat \<Rightarrow> bool" where
  "printable byte_value \<longleftrightarrow>
     (32 \<le> byte_value \<and> byte_value \<le> 126) \<or> byte_value = 10 \<or> byte_value = 13 \<or> byte_value = 9"

record channel_result =
  raw_bytes :: "nat list"
  ascii_text :: "nat list"
  possibly_corrupted :: bool

function strict_loop :: "bool list \<Rightarrow> channel_result \<Rightarrow> channel_result" where
  "strict_loop bits r =
     (if length bits < 8 then r
      else
        (let byte_value = int_of_bits (take 8 bits);
             r = r\<lparr>raw_bytes := raw_bytes r @ [byte_value]\<rparr>
         in if printable byte_value then
              strict_loop (drop 8 bits) (r\<lparr>ascii_text := ascii_text r @ [byte_value]\<rparr>)
            else if byte_value = 0 then r
            else strict_loop (drop 8 bits) (r\<lparr>possibly_corrupted := True\<rparr>)))"
  by pat_completeness auto
termination
  by (relation "measure (\<lambda>(bits, r). length bits)") auto

definition decode_strict :: "bool list \<Rightarrow> channel_result" where
  "decode_strict bits =
     strict_loop bits \<lparr>raw_bytes = [], ascii_text = [], possibly_corrupted = False\<rparr>"


section \<open>spiral\_reader.py\<close>

text \<open>
  \<open>generate_spiral_coordinates\<close>. The state of the traversal is the current position and the
  list of coordinates collected so far. \<open>leg\<close> is one
  \<^verbatim>\<open>for _ in range(step)\<close> loop: it moves by \<open>(dx, dy)\<close>, appends the position when
  it is inside the image, and breaks as soon as \<open>width * height\<close> coordinates are collected.
  \<open>spiral_loop\<close> is the \<^verbatim>\<open>while\<close> loop, with its four legs and the test after each
  of them; a run that never ends has the value \<open>None\<close>.
\<close>

fun leg :: "int \<Rightarrow> int \<Rightarrow> int \<Rightarrow> int \<Rightarrow> nat \<Rightarrow> int \<times> int \<times> (int \<times> int) list
              \<Rightarrow> int \<times> int \<times> (int \<times> int) list" where
  "leg width height dx dy 0 s = s"
| "leg width height dx dy (Suc n) (x, y, coordinates) =
     (let x = x + dx;
          y = y + dy;
          coordinates =
            (if 0 \<le> x \<and> x < width \<and> 0 \<le> y \<and> y < height then coordinates @ [(x, y)]
             else coordinates)
      in if width * height \<le> int (length coordinates) then (x, y, coordinates)
         else leg width height dx dy n (x, y, coordinates))"

definition coords :: "int \<times> int \<times> (int \<times> int) list \<Rightarrow> (int \<times> int) list" where
  "coords s = snd (snd s)"

partial_function (option) spiral_loop ::
  "int \<Rightarrow> int \<Rightarrow> bool \<Rightarrow> nat \<Rightarrow> int \<times> int \<times> (int \<times> int) list \<Rightarrow> (int \<times> int) list option" where
  "spiral_loop width height clockwise step s =
     (if \<not> int (length (coords s)) < width * height then Some (coords s)
      else
        let s = leg width height (if clockwise then 1 else - 1) 0 step s in
        if width * height \<le> int (length (coords s)) then Some (coords s)
        else
          let s = leg width height 0 (if clockwise then 1 else - 1) step s in
          if width * height \<le> int (length (coords s)) then Some (coords s)
          else
            let step = step + 1;
                s = leg width height (if clockwise then - 1 else 1) 0 step s in
            if width * height \<le> int (length (coords s)) then Some (coords s)
            else
              let s = leg width height 0 (if clockwise then - 1 else 1) step s in
              if width * height \<le> int (length (coords s)) then Some (coords s)
              else spiral_loop width height clockwise (step + 1) s)"

definition generate_spiral_coordinates :: "int \<Rightarrow> int \<Rightarrow> bool \<Rightarrow> (int \<times> int) list option" where
  "generate_spiral_coordinates width height clockwise =
     spiral_loop width height clockwise 1 (width div 2, height div 2, [(width div 2, height div 2)])"


section \<open>Specification-side notions used in the statements\<close>

definition is_upper :: "nat \<Rightarrow> bool" where
  "is_upper c \<longleftrightarrow> 65 \<le> c \<and> c \<le> 90"
definition is_lower :: "nat \<Rightarrow> bool" where
  "is_lower c \<longleftrightarrow> 97 \<le> c \<and> c \<le> 122"
definition rotate13 :: "nat \<Rightarrow> nat" where
  "rotate13 c =
     (if is_upper c then 65 + (c - 65 + 13) mod 26
      else if is_lower c then 97 + (c - 97 + 13) mod 26
      else c)"
definition nonempty :: "pystr option \<Rightarrow> pystr option" where
  "nonempty r = (case r of None \<Rightarrow> None | Some s \<Rightarrow> if s = [] then None else Some s)"
definition is_b64_or_pad :: "nat \<Rightarrow> bool" where
  "is_b64_or_pad c \<longleftrightarrow> b64_value c \<noteq> None \<or> c = 61"


definition entry :: "string \<Rightarrow> pystr option \<Rightarrow> (string \<times> pystr) list" where
  "entry label r = (case r of None \<Rightarrow> [] | Some s \<Rightarrow> [(label, s)])"

definition base64_entry :: "pystr \<Rightarrow> pystr option" where
  "base64_entry data =
     (if list_all (\<lambda>c. c \<in> base64_chars \<or> py_isspace c) data
      then nonempty (decode_base64 (Str data)) else None)"

definition rot13_entry :: "pystr \<Rightarrow> pystr option" where
  "rot13_entry data =
     (case nonempty (decode_rot13 (Str data)) of
        None \<Rightarrow> None | Some r \<Rightarrow> if r \<noteq> data then Some r else None)"


definition qualifies :: "(nat \<Rightarrow> bool) \<Rightarrow> pystr option \<Rightarrow> bool" where
  "qualifies alpha r = (case r of None \<Rightarrow> False | Some t \<Rightarrow> list_ex alpha t)"

definition auto_choice :: "(nat \<Rightarrow> bool) \<Rightarrow> pystr option \<Rightarrow> pystr option \<Rightarrow> pystr option" where
  "auto_choice alpha x a =
     (if qualifies alpha x then x
      else if qualifies alpha a then a
      else if x \<noteq> None then x
      else a)"


text \<open>
  A string that \<open>str.encode()\<close> rejects (it holds a lone surrogate), the length \<open>len(v)\<close>
  of a value and the number of bytes it stands for, and the data XORed byte by byte with the
  key repeated cyclically.
\<close>

definition unencodable :: "py_val \<Rightarrow> bool" where
  "unencodable v = (case v of Str s \<Rightarrow> list_ex is_surrogate s | Bytes b \<Rightarrow> False)"

definition py_len :: "py_val \<Rightarrow> nat" where
  "py_len v = (case v of Str s \<Rightarrow> length s | Bytes b \<Rightarrow> length b)"

definition utf8_len :: "nat \<Rightarrow> nat" where
  "utf8_len c = (if c < 0x80 then 1 else if c < 0x800 then 2 else if c < 0x10000 then 3 else 4)"

definition byte_length :: "py_val \<Rightarrow> nat" where
  "byte_length v = (case v of Str s \<Rightarrow> sum_list (map utf8_len s) | Bytes b \<Rightarrow> length b)"

definition is_ascii :: "py_val \<Rightarrow> bool" where
  "is_ascii v = (case v of Str s \<Rightarrow> list_all (\<lambda>c. c < 128) s | Bytes b \<Rightarrow> True)"

definition key_stream_xor :: "byte list \<Rightarrow> byte list \<Rightarrow> byte list" where
  "key_stream_xor d k = map (\<lambda>i. d ! i XOR k ! (i mod length k)) [0..<length d]"


text \<open>
  The number of characters of the base64 alphabet in a string, and a complete padding: once
  every character outside the alphabet and \<open>=\<close> is left out, a \<open>=\<close> that follows
  \<open>4n + 3\<close> alphabet characters, or a \<open>=\<close> that follows \<open>4n + 2\<close> alphabet characters
  and another \<open>=\<close>.
\<close>

definition alphabet_count :: "pystr \<Rightarrow> nat" where
  "alphabet_count s = length (filter (\<lambda>c. b64_value c \<noteq> None) s)"

definition complete_padding :: "pystr \<Rightarrow> bool" where
  "complete_padding s =
     (let f = filter is_b64_or_pad s in
      list_ex (\<lambda>i. f ! i = 61 \<and>
                  (alphabet_count (take i f) mod 4 = 3 \<or>
                   (alphabet_count (take i f) mod 4 = 2 \<and> 0 < i \<and> f ! (i - 1) = 61)))
        [0..<length f])"

text \<open>
  The same test on a string \<open>f\<close> read after \<open>q\<close> alphabet characters and \<open>p\<close> padding
  characters, as the proof needs it.
\<close>

definition pad_at :: "nat \<Rightarrow> nat \<Rightarrow> pystr \<Rightarrow> nat \<Rightarrow> bool" where
  "pad_at q p f i \<longleftrightarrow>
     f ! i = 61 \<and>
     ((q + alphabet_count (take i f)) mod 4 = 3 \<or>
      ((q + alphabet_count (take i f)) mod 4 = 2 \<and>
         (if i = 0 then 1 \<le> p else f ! (i - 1) = 61)))"

definition padding_from :: "nat \<Rightarrow> nat \<Rightarrow> pystr \<Rightarrow> bool" where
  "padding_from q p f = list_ex (pad_at q p f) [0..<length f]"

text \<open>
  The pixels of an image; the positions \<open>seg x y dx dy n\<close> reached in \<open>n\<close> moves by
  \<open>(dx, dy)\<close> from \<open>(x, y)\<close>; the positions \<open>visited d cx cy i\<close> that the unbounded
  spiral around \<open>(cx, cy)\<close> has reached after \<open>i\<close> rounds (\<open>d\<close> is 1 clockwise and
  -1 counter-clockwise), the invariant of the \<^verbatim>\<open>while\<close> loop, and a complete traversal.
\<close>

definition box :: "int \<Rightarrow> int \<Rightarrow> (int \<times> int) set" where
  "box w h = {0..<w} \<times> {0..<h}"

definition seg :: "int \<Rightarrow> int \<Rightarrow> int \<Rightarrow> int \<Rightarrow> nat \<Rightarrow> (int \<times> int) set" where
  "seg x y dx dy n = {(x + j * dx, y + j * dy) | j. 1 \<le> j \<and> j \<le> int n}"

definition visited :: "int \<Rightarrow> int \<Rightarrow> int \<Rightarrow> nat \<Rightarrow> (int \<times> int) set" where
  "visited d cx cy i =
     {(x, y). (\<bar>d * (x - cx)\<bar> \<le> int i \<and> - int i < d * (y - cy) \<and> d * (y - cy) \<le> int i) \<or>
              (d * (x - cx) = - int i \<and> d * (y - cy) = - int i)}"

text \<open>The four legs of round i, from (cx - d i, cy - d i).\<close>

definition leg1 :: "int \<Rightarrow> int \<Rightarrow> int \<Rightarrow> nat \<Rightarrow> (int \<times> int) set" where
  "leg1 d cx cy i = seg (cx - d * int i) (cy - d * int i) d 0 (2 * i + 1)"
definition leg2 :: "int \<Rightarrow> int \<Rightarrow> int \<Rightarrow> nat \<Rightarrow> (int \<times> int) set" where
  "leg2 d cx cy i = seg (cx + d * (int i + 1)) (cy - d * int i) 0 d (2 * i + 1)"
definition leg3 :: "int \<Rightarrow> int \<Rightarrow> int \<Rightarrow> nat \<Rightarrow> (int \<times> int) set" where
  "leg3 d cx cy i = seg (cx + d * (int i + 1)) (cy + d * (int i + 1)) (- d) 0 (2 * i + 2)"
definition leg4 :: "int \<Rightarrow> int \<Rightarrow> int \<Rightarrow> nat \<Rightarrow> (int \<times> int) set" where
  "leg4 d cx cy i = seg (cx - d * (int i + 1)) (cy + d * (int i + 1)) 0 (- d) (2 * i + 2)"

definition spiral_inv :: "int \<Rightarrow> int \<Rightarrow> int \<Rightarrow> nat \<Rightarrow> int \<times> int \<times> (int \<times> int) list \<Rightarrow> bool" where
  "spiral_inv w h d i s \<longleftrightarrow>
     fst s = w div 2 - d * int i \<and> fst (snd s) = h div 2 - d * int i \<and>
     distinct (coords s) \<and> set (coords s) = box w h \<inter> visited d (w div 2) (h div 2) i"

definition complete :: "int \<Rightarrow> int \<Rightarrow> (int \<times> int) list \<Rightarrow> bool" where
  "complete w h cs \<longleftrightarrow> int (length cs) = w * h \<and> distinct cs \<and> set cs = box w h"

text \<open>The bytes packed from a bit stream, 8 bits at a time, most significant bit first.\<close>

function bytes_of_bits :: "bool list \<Rightarrow> nat list" where
  "bytes_of_bits bits =
     (if length bits < 8 then [] else int_of_bits (take 8 bits) # bytes_of_bits (drop 8 bits))"
  by pat_completeness auto
termination
  by (relation "measure length") auto


declare strict_loop.simps [simp del] bytes_of_bits.simps [simp del]


section \<open>Properties of \<open>xor_decrypt\<close>\<close>

lemma length_concat_replicate: "length (concat (replicate m k)) = m * length k"
  by (induction m) simp_all

lemma key_repeated_length:
  assumes "k \<noteq> []"
  shows "\<exists>kr. key_repeated d k = Inr kr \<and> length kr = length d"
proof -
  have pos: "0 < length k" using assms by simp
  have "length d < (length d div length k + 1) * length k"
    using pos by (metis Suc_eq_plus1 dividend_less_div_times mult.commute mult_Suc_right add.commute)
  then have "length d \<le> length (concat (replicate (length d div length k + 1) k))"
    by (simp add: length_concat_replicate)
  then show ?thesis using pos by (simp add: key_repeated_def)
qed

lemma map2_xor_cancel:
  "length kr = length d \<Longrightarrow>
   map (\<lambda>(d, k). d XOR k) (zip (map (\<lambda>(d, k). d XOR k) (zip d kr)) kr) = (d :: byte list)"
proof (induction d kr rule: list_induct2')
  case (4 x xs y ys)
  have "(x XOR y) XOR y = x" by (simp add: xor.assoc)
  with 4 show ?case by simp
qed simp_all

lemma xor_decrypt_bytes:
  assumes "as_bytes data = Inr d" and "as_bytes key = Inr k" and "key_repeated d k = Inr kr"
  shows "xor_decrypt data key = Inr (map (\<lambda>(d, k). d XOR k) (zip d kr))"
  using assms by (simp add: xor_decrypt_def)

lemma concat_replicate_nth:
  "i < m * length k \<Longrightarrow> concat (replicate m k) ! i = k ! (i mod length k)"
proof (induction m arbitrary: i)
  case 0
  then show ?case by simp
next
  case (Suc m)
  show ?case
  proof (cases "i < length k")
    case True
    then show ?thesis by (simp add: nth_append)
  next
    case False
    then have "i - length k < m * length k" using Suc.prems by simp
    from Suc.IH [OF this] False show ?thesis
      by (simp add: nth_append le_mod_geq)
  qed
qed

lemma key_repeated_nth:
  assumes "k \<noteq> []" and "key_repeated d k = Inr kr" and "i < length d"
  shows "kr ! i = k ! (i mod length k)"
proof -
  have pos: "0 < length k" using assms(1) by simp
  have lt: "length d < (length d div length k + 1) * length k"
    using pos by (metis Suc_eq_plus1 dividend_less_div_times mult.commute mult_Suc_right add.commute)
  have kr: "kr = take (length d) (concat (replicate (length d div length k + 1) k))"
    using assms(1,2) by (simp add: key_repeated_def)
  have "i < (length d div length k + 1) * length k" using lt assms(3) by linarith
  from concat_replicate_nth [OF this]
  have "concat (replicate (length d div length k + 1) k) ! i = k ! (i mod length k)" .
  moreover have "kr ! i = concat (replicate (length d div length k + 1) k) ! i"
    unfolding kr using assms(3) by (rule nth_take)
  ultimately show ?thesis by simp
qed

lemma xor_decrypt_stream:
  assumes "as_bytes key = Inr k" and "k \<noteq> []"
  shows "xor_decrypt (Bytes d) key = Inr (key_stream_xor d k)"
proof -
  obtain kr where kr: "key_repeated d k = Inr kr" and len: "length kr = length d"
    using key_repeated_length [OF assms(2)] by blast
  have d: "as_bytes (Bytes d) = Inr d" by (simp add: as_bytes_def)
  have "map (\<lambda>(d, k). d XOR k) (zip d kr) = key_stream_xor d k"
    by (rule nth_equalityI)
       (simp_all add: key_stream_xor_def len key_repeated_nth [OF assms(2) kr])
  with xor_decrypt_bytes [OF d assms(1) kr] show ?thesis by simp
qed

lemma xor_decrypt_twice:
  assumes "as_bytes key = Inr k" and "k \<noteq> []"
  shows "xor_decrypt (Bytes (key_stream_xor d k)) key = Inr d"
proof -
  obtain kr where kr: "key_repeated d k = Inr kr" and len: "length kr = length d"
    using key_repeated_length [OF assms(2)] by blast
  have d: "as_bytes (Bytes d) = Inr d" by (simp add: as_bytes_def)
  let ?c = "map (\<lambda>(d, k). d XOR k) (zip d kr)"
  have c: "xor_decrypt (Bytes d) key = Inr ?c"
    by (rule xor_decrypt_bytes [OF d assms(1) kr])
  then have eq: "key_stream_xor d k = ?c"
    using xor_decrypt_stream [OF assms, of d] by simp
  have lc: "length ?c = length d" using len by simp
  have kr': "key_repeated ?c k = Inr kr"
    using kr lc assms(2) by (simp add: key_repeated_def)
  have "xor_decrypt (Bytes ?c) key = Inr (map (\<lambda>(d, k). d XOR k) (zip ?c kr))"
    by (rule xor_decrypt_bytes [OF _ assms(1) kr']) (simp add: as_bytes_def)
  then show ?thesis
    using map2_xor_cancel [OF len] by (simp add: eq)
qed

lemma utf8_encode_char_length: "length (utf8_encode_char c) = utf8_len c"
  by (simp add: utf8_encode_char_def utf8_len_def)

lemma str_encode_length:
  "length (concat (map utf8_encode_char s)) = sum_list (map utf8_len s)"
  by (induction s) (simp_all add: utf8_encode_char_length)

lemma utf8_len_pos: "0 < utf8_len c"
  by (simp add: utf8_len_def)

lemma as_bytes_encodable:
  "\<not> unencodable v \<Longrightarrow>
   \<exists>b. as_bytes v = Inr b \<and> length b = byte_length v \<and> (b = [] \<longleftrightarrow> py_len v = 0)"
proof (cases v)
  case (Str s)
  assume "\<not> unencodable v"
  then have enc: "str_encode s = Inr (concat (map utf8_encode_char s))"
    using Str by (simp add: unencodable_def str_encode_def)
  have "(concat (map utf8_encode_char s) = []) = (s = [])"
    by (cases s) (simp_all add: utf8_encode_char_def)
  then show ?thesis
    using enc Str by (simp add: as_bytes_def byte_length_def py_len_def str_encode_length)
next
  case (Bytes b)
  then show ?thesis by (simp add: as_bytes_def byte_length_def py_len_def)
qed

lemma as_bytes_unencodable: "unencodable v \<Longrightarrow> as_bytes v = Inl UnicodeEncodeError"
  by (cases v) (simp_all add: unencodable_def as_bytes_def str_encode_def)

lemma ascii_byte_length: "is_ascii v \<Longrightarrow> byte_length v = py_len v"
proof (cases v)
  case (Str s)
  assume "is_ascii v"
  then have "list_all (\<lambda>c. c < 128) s" using Str by (simp add: is_ascii_def)
  then have "sum_list (map utf8_len s) = length s"
    by (induction s) (simp_all add: utf8_len_def)
  then show ?thesis using Str by (simp add: byte_length_def py_len_def)
next
  case (Bytes b)
  then show ?thesis by (simp add: byte_length_def py_len_def)
qed

text \<open>
  C7 (amended). For every byte string \<open>d\<close> and every non-empty key that is a byte string or
  a string that \<open>encode()\<close> accepts, \<open>xor_decrypt\<close> returns the data XORed byte by byte
  with the bytes of the key repeated cyclically, and decrypting that output again with the same
  key gives \<open>d\<close> back. With a string key that holds a lone surrogate \<open>xor_decrypt\<close> raises
  \<open>UnicodeEncodeError\<close>. The ciphertext of \<open>"FLAG{test}"\<close> under the key \<open>"k"\<close>, the
  bytes \<open>45, 39, 42, 44, 16, 31, 14, 24, 31, 22\<close>, decrypts with \<open>"k"\<close> to
  \<open>"FLAG{test}"\<close>.
\<close>

theorem xor_decrypt_self_inverse:
  "(\<not> unencodable key \<and> 0 < py_len key \<longrightarrow>
      (\<exists>k. as_bytes key = Inr k \<and> k \<noteq> [] \<and>
           xor_decrypt (Bytes d) key = Inr (key_stream_xor d k) \<and>
           xor_decrypt (Bytes (key_stream_xor d k)) key = Inr d)) \<and>
   (unencodable key \<longrightarrow> xor_decrypt (Bytes d) key = Inl UnicodeEncodeError) \<and>
   xor_decrypt (Bytes [45, 39, 42, 44, 16, 31, 14, 24, 31, 22]) (Str (py ''k''))
     = Inr (map of_nat (py ''FLAG{test}''))"
proof (intro conjI impI)
  assume "\<not> unencodable key \<and> 0 < py_len key"
  then obtain k where k: "as_bytes key = Inr k" "k \<noteq> []"
    using as_bytes_encodable [of key] by auto
  with xor_decrypt_stream [OF k] xor_decrypt_twice [OF k]
  show "\<exists>k. as_bytes key = Inr k \<and> k \<noteq> [] \<and>
           xor_decrypt (Bytes d) key = Inr (key_stream_xor d k) \<and>
           xor_decrypt (Bytes (key_stream_xor d k)) key = Inr d"
    by blast
next
  assume "unencodable key"
  then have "as_bytes key = Inl UnicodeEncodeError" by (rule as_bytes_unencodable)
  moreover have "as_bytes (Bytes d) = Inr d" by (simp add: as_bytes_def)
  ultimately show "xor_decrypt (Bytes d) key = Inl UnicodeEncodeError"
    by (simp add: xor_decrypt_def)
next
  have k: "as_bytes (Str (py ''k'')) = Inr [107]"
    by (simp add: as_bytes_def str_encode_def py_def is_surrogate_def utf8_encode_char_def)
  have "key_stream_xor (map of_nat (py ''FLAG{test}'')) [107] = [45, 39, 42, 44, 16, 31, 14, 24, 31, 22]"
    by (simp add: key_stream_xor_def py_def upt_rec)
  with xor_decrypt_twice [OF k, of "map of_nat (py ''FLAG{test}'')"]
  show "xor_decrypt (Bytes [45, 39, 42, 44, 16, 31, 14, 24, 31, 22]) (Str (py ''k''))
     = Inr (map of_nat (py ''FLAG{test}''))" by simp
qed

text \<open>
  The scenario in both directions, and a key with a lone surrogate.
\<close>

theorem xor_decrypt_flag_scenario:
  "\<not> unencodable (Str (py ''k'')) \<and> 0 < py_len (Str (py ''k'')) \<and>
   xor_decrypt (Bytes [70, 76, 65, 71, 123, 116, 101, 115, 116, 125]) (Str (py ''k''))
     = Inr [45, 39, 42, 44, 16, 31, 14, 24, 31, 22] \<and>
   xor_decrypt (Bytes [45, 39, 42, 44, 16, 31, 14, 24, 31, 22]) (Str (py ''k''))
     = Inr [70, 76, 65, 71, 123, 116, 101, 115, 116, 125] \<and>
   unencodable (Str [0xDC00]) \<and>
   xor_decrypt (Bytes [45, 39, 42]) (Str [0xDC00]) = Inl UnicodeEncodeError"
proof -
  have 1: "\<not> unencodable (Str (py ''k''))" by (simp add: unencodable_def py_def is_surrogate_def)
  have 2: "0 < py_len (Str (py ''k''))" by (simp add: py_len_def py_def)
  have 3: "unencodable (Str [0xDC00])" by (simp add: unencodable_def is_surrogate_def)
  have k: "as_bytes (Str (py ''k'')) = Inr [107]"
    by (simp add: as_bytes_def str_encode_def py_def is_surrogate_def utf8_encode_char_def)
  have s: "key_stream_xor [70, 76, 65, 71, 123, 116, 101, 115, 116, 125] [107]
           = [45, 39, 42, 44, 16, 31, 14, 24, 31, 22]"
    by (simp add: key_stream_xor_def upt_rec)
  show ?thesis
    using xor_decrypt_self_inverse [of "Str (py ''k'')" "[70, 76, 65, 71, 123, 116, 101, 115, 116, 125]"]
          xor_decrypt_self_inverse [of "Str [0xDC00]" "[45, 39, 42]"] 1 2 3 k s
    by auto
qed

text \<open>
  The string key made of the lone surrogate U+DCFF is not empty, and \<open>xor_decrypt\<close>
  raises with it.
\<close>

theorem xor_decrypt_surrogate_key:
  "0 < py_len (Str [0xDCFF]) \<and>
   xor_decrypt (Bytes [70, 76, 65, 71]) (Str [0xDCFF]) = Inl UnicodeEncodeError"
  by (simp add: py_len_def xor_decrypt_def as_bytes_def str_encode_def is_surrogate_def)

text \<open>
  C10 (amended). When the data or the key is a string that \<open>encode()\<close> rejects,
  \<open>xor_decrypt\<close> raises \<open>UnicodeEncodeError\<close>. Otherwise, with a key of length 0 it
  raises \<open>ZeroDivisionError\<close>, and with a key of length at least 1 it returns an output that
  has as many bytes as the data: \<open>len(data)\<close> for a byte string or an ASCII text, the length
  of the UTF-8 encoding for any other text.
\<close>

theorem xor_decrypt_key_length:
  "(unencodable data \<or> unencodable key \<longrightarrow> xor_decrypt data key = Inl UnicodeEncodeError) \<and>
   (\<not> unencodable data \<and> \<not> unencodable key \<and> py_len key = 0 \<longrightarrow>
      xor_decrypt data key = Inl ZeroDivisionError) \<and>
   (\<not> unencodable data \<and> \<not> unencodable key \<and> 0 < py_len key \<longrightarrow>
      (\<exists>out. xor_decrypt data key = Inr out \<and> length out = byte_length data \<and>
             (is_ascii data \<longrightarrow> length out = py_len data)))"
proof (intro conjI impI)
  assume "unencodable data \<or> unencodable key"
  then show "xor_decrypt data key = Inl UnicodeEncodeError"
  proof (cases "unencodable data")
    case True
    then show ?thesis by (simp add: xor_decrypt_def as_bytes_unencodable)
  next
    case False
    assume "unencodable data \<or> unencodable key"
    with False have uk: "unencodable key" by simp
    obtain d where "as_bytes data = Inr d" using as_bytes_encodable [OF False] by blast
    then show ?thesis using uk by (simp add: xor_decrypt_def as_bytes_unencodable)
  qed
next
  assume a: "\<not> unencodable data \<and> \<not> unencodable key \<and> py_len key = 0"
  then obtain d where d: "as_bytes data = Inr d" using as_bytes_encodable [of data] by blast
  from a have "as_bytes key = Inr []" using as_bytes_encodable [of key] by auto
  with d show "xor_decrypt data key = Inl ZeroDivisionError"
    by (simp add: xor_decrypt_def key_repeated_def)
next
  assume a: "\<not> unencodable data \<and> \<not> unencodable key \<and> 0 < py_len key"
  then obtain d where d: "as_bytes data = Inr d" "length d = byte_length data"
    using as_bytes_encodable [of data] by blast
  from a obtain k where k: "as_bytes key = Inr k" "k \<noteq> []"
    using as_bytes_encodable [of key] by auto
  obtain kr where kr: "key_repeated d k = Inr kr" and len: "length kr = length d"
    using key_repeated_length [OF k(2)] by blast
  show "\<exists>out. xor_decrypt data key = Inr out \<and> length out = byte_length data \<and>
             (is_ascii data \<longrightarrow> length out = py_len data)"
    using xor_decrypt_bytes [OF d(1) k(1) kr] len d(2) ascii_byte_length [of data] by simp
qed

theorem xor_decrypt_key_length_witness:
  "unencodable (Str [0xD800]) \<and> xor_decrypt (Str [0xD800]) (Bytes [7]) = Inl UnicodeEncodeError \<and>
   py_len (Bytes []) = 0 \<and> xor_decrypt (Bytes [1, 2, 3]) (Bytes []) = Inl ZeroDivisionError \<and>
   0 < py_len (Bytes [7, 9]) \<and> is_ascii (Bytes [1, 2, 3]) \<and>
   (\<exists>out. xor_decrypt (Bytes [1, 2, 3]) (Bytes [7, 9]) = Inr out \<and> length out = 3)"
proof -
  have 1: "unencodable (Str [0xD800])" by (simp add: unencodable_def is_surrogate_def)
  have 2: "\<not> unencodable (Bytes b)" for b by (simp add: unencodable_def)
  have 3: "py_len (Bytes []) = 0" "0 < py_len (Bytes [7, 9])" "py_len (Bytes [1, 2, 3]) = 3"
    by (simp_all add: py_len_def)
  have 4: "is_ascii (Bytes [1, 2, 3])" by (simp add: is_ascii_def)
  show ?thesis
    using xor_decrypt_key_length [of "Str [0xD800]" "Bytes [7]"]
          xor_decrypt_key_length [of "Bytes [1, 2, 3]" "Bytes []"]
          xor_decrypt_key_length [of "Bytes [1, 2, 3]" "Bytes [7, 9]"] 1 2 3 4
    by auto
qed

text \<open>
  A key of length 1 on which the call raises; an empty key with which the error is not the
  division by zero; a text of length 1 whose output has 2 bytes.
\<close>

theorem xor_decrypt_key_length_counterexample:
  "0 < py_len (Str [0xDC00]) \<and>
   xor_decrypt (Bytes [1, 2, 3]) (Str [0xDC00]) = Inl UnicodeEncodeError \<and>
   py_len (Bytes []) = 0 \<and>
   xor_decrypt (Str [0xD800]) (Bytes []) = Inl UnicodeEncodeError \<and>
   py_len (Str [233]) = 1 \<and>
   xor_decrypt (Str [233]) (Bytes [1]) = Inr [194, 168]"
  by (simp add: py_len_def xor_decrypt_def as_bytes_def str_encode_def is_surrogate_def
      utf8_encode_char_def key_repeated_def)

section \<open>Properties of the decoders\<close>

lemmas dec_defs = decode_base64_def py_def str_strip_def py_isspace_def b64decode_def ascii_encode_def
      a2b_base64_def b64_value_def utf8_decode_ignore_def is_cont_def bad_second3_def bad_second4_def

lemma ascii_ranges:
  fixes c :: nat
  obtains "c < 65" | k where "c = 65 + k" "k \<le> 12" | k where "c = 78 + k" "k \<le> 12"
    | "90 < c" "c < 97" | k where "c = 97 + k" "k \<le> 12" | k where "c = 110 + k" "k \<le> 12"
    | "122 < c"
proof -
  consider "c < 65" | "65 \<le> c \<and> c \<le> 77" | "78 \<le> c \<and> c \<le> 90" | "90 < c \<and> c < 97"
    | "97 \<le> c \<and> c \<le> 109" | "110 \<le> c \<and> c \<le> 122" | "122 < c"
    by linarith
  then show thesis
  proof cases
    case 1 then show ?thesis using that(1) by simp
  next
    case 2 then have "c = 65 + (c - 65)" "c - 65 \<le> 12" by linarith+
    then show ?thesis using that(2) by blast
  next
    case 3 then have "c = 78 + (c - 78)" "c - 78 \<le> 12" by linarith+
    then show ?thesis using that(3) by blast
  next
    case 4 then show ?thesis using that(4) by simp
  next
    case 5 then have "c = 97 + (c - 97)" "c - 97 \<le> 12" by linarith+
    then show ?thesis using that(5) by blast
  next
    case 6 then have "c = 110 + (c - 110)" "c - 110 \<le> 12" by linarith+
    then show ?thesis using that(6) by blast
  next
    case 7 then show ?thesis using that(7) by simp
  qed
qed

lemma rot13_map_rotate13: "rot13_map c = rotate13 c"
  by (cases c rule: ascii_ranges) (simp_all add: rot13_map_def rotate13_def is_upper_def is_lower_def)

lemma rot13_map_involution: "rot13_map (rot13_map c) = c"
  by (cases c rule: ascii_ranges) (simp_all add: rot13_map_def)

lemma rot13_map_upper: "is_upper (rot13_map c) = is_upper c"
  by (cases c rule: ascii_ranges) (simp_all add: rot13_map_def is_upper_def)

lemma rot13_map_lower: "is_lower (rot13_map c) = is_lower c"
  by (cases c rule: ascii_ranges) (simp_all add: rot13_map_def is_lower_def)

text \<open>
  C8. \<open>decode_rot13\<close> never fails on text, it rotates every letter of the Latin
  alphabet by 13 positions (\<open>rotate13\<close>, the specification's wording) and leaves every other
  character alone, it preserves case, and applying it twice gives the input back. The
  involution holds for every string, so in particular for the alphabetic-only ones.
\<close>

theorem decode_rot13_involution:
  "decode_rot13 (Str x) = Some (map rotate13 x) \<and>
   map is_upper (map rotate13 x) = map is_upper x \<and>
   map is_lower (map rotate13 x) = map is_lower x \<and>
   decode_rot13 (Str (map rotate13 x)) = Some x"
proof -
  have m: "map rot13_map x = map rotate13 x" for x
    by (simp add: rot13_map_rotate13)
  have "map rot13_map (map rot13_map x) = x"
    by (simp add: rot13_map_involution comp_def)
  then show ?thesis
    by (simp add: decode_rot13_def m [symmetric] rot13_map_upper rot13_map_lower comp_def)
qed

text \<open>
  C9. A chain with the single layer \<open>"base64"\<close> returns what \<open>decode_base64\<close> returns,
  failure included.
\<close>

theorem decode_multi_layer_base64:
  "decode_multi_layer (Str text) [py ''base64''] = map_option Str (decode_base64 (Str text))"
  by (simp add: decode_multi_layer_def str_lower_def py_def split: option.splits)

text \<open>
  The input \<open>"/w=="\<close> passes the alphabet gate and decodes to the single byte \<open>0xFF\<close>,
  which is not valid UTF-8 and is dropped: \<open>decode_base64\<close> returns the empty string, which
  is not null, and yet the result has no \<open>base64\<close> entry.
\<close>

theorem auto_detect_counterexample:
  "list_all (\<lambda>c. c \<in> base64_chars \<or> py_isspace c) (py ''/w=='') \<and>
   decode_base64 (Str (py ''/w=='')) = Some [] \<and>
   map_of (auto_detect_and_decode (py ''/w=='')) ''base64'' = None"
  by (simp add: auto_detect_and_decode_def try_base64_def try_rot13_def try_base64_then_rot13_def
      try_rot13_then_base64_def dec_defs base64_chars_def decode_rot13_def rot13_map_def)

lemma try_base64_form: "try_base64 data rs = rs @ entry ''base64'' (base64_entry data)"
  by (simp add: try_base64_def entry_def base64_entry_def nonempty_def split: option.splits)

lemma try_rot13_form:
  "try_rot13 data (decode_rot13 (Str data)) rs = rs @ entry ''rot13'' (rot13_entry data)"
  by (simp add: try_rot13_def entry_def rot13_entry_def nonempty_def decode_rot13_def)

lemma map_of_entries:
  "map_of (entry ''base64'' b @ entry ''rot13'' r) ''base64'' = b"
  by (simp add: entry_def split: option.splits)

lemma try_base64_then_rot13_form:
  "try_base64_then_rot13 (entry ''base64'' b @ entry ''rot13'' r) =
     entry ''base64'' b @ entry ''rot13'' r @
     entry ''base64_then_rot13''
       (case b of None \<Rightarrow> None | Some x \<Rightarrow> nonempty (decode_rot13 (Str x)))"
  unfolding try_base64_then_rot13_def map_of_entries
  by (simp add: entry_def nonempty_def decode_rot13_def split: option.splits)

lemma try_rot13_then_base64_form:
  "try_rot13_then_base64 (decode_rot13 (Str data)) rs =
     rs @ entry ''rot13_then_base64''
       (case nonempty (decode_rot13 (Str data)) of
          None \<Rightarrow> None | Some r \<Rightarrow> nonempty (decode_base64 (Str r)))"
  by (simp add: try_rot13_then_base64_def entry_def nonempty_def decode_rot13_def
      split: option.splits)

lemma auto_detect_form:
  "auto_detect_and_decode data =
     entry ''base64'' (base64_entry data) @
     entry ''rot13'' (rot13_entry data) @
     entry ''base64_then_rot13''
       (case base64_entry data of None \<Rightarrow> None | Some b \<Rightarrow> nonempty (decode_rot13 (Str b))) @
     entry ''rot13_then_base64''
       (case nonempty (decode_rot13 (Str data)) of
          None \<Rightarrow> None | Some r \<Rightarrow> nonempty (decode_base64 (Str r)))"
proof -
  have 1: "try_base64 data [] = entry ''base64'' (base64_entry data)"
    by (simp add: try_base64_form)
  show ?thesis
    unfolding auto_detect_and_decode_def Let_def 1 try_rot13_form try_base64_then_rot13_form
      try_rot13_then_base64_form
    by simp
qed

lemma map_of_four:
  "map_of (entry ''base64'' a @ entry ''rot13'' b @ entry ''base64_then_rot13'' c
           @ entry ''rot13_then_base64'' d) ''base64'' = a"
  "map_of (entry ''base64'' a @ entry ''rot13'' b @ entry ''base64_then_rot13'' c
           @ entry ''rot13_then_base64'' d) ''rot13'' = b"
  "map_of (entry ''base64'' a @ entry ''rot13'' b @ entry ''base64_then_rot13'' c
           @ entry ''rot13_then_base64'' d) ''base64_then_rot13'' = c"
  "map_of (entry ''base64'' a @ entry ''rot13'' b @ entry ''base64_then_rot13'' c
           @ entry ''rot13_then_base64'' d) ''rot13_then_base64'' = d"
  "fst ` set (entry ''base64'' a @ entry ''rot13'' b @ entry ''base64_then_rot13'' c
           @ entry ''rot13_then_base64'' d)
     \<subseteq> {''base64'', ''rot13'', ''base64_then_rot13'', ''rot13_then_base64''}"
  by (auto simp: entry_def split: option.splits)

text \<open>
  C6 (amended). The result of \<open>auto_detect_and_decode\<close> has an entry for a method exactly
  when its decode step was attempted and returned a non-empty string (the source tests the
  truth value of the result, so an empty string is left out like a null one): \<open>base64\<close>
  behind the alphabet gate, \<open>rot13\<close> when moreover the output differs from the input,
  \<open>base64_then_rot13\<close> when there is a \<open>base64\<close> entry, \<open>rot13_then_base64\<close> on the
  non-empty ROT-13 output; and there is no other label.
\<close>

theorem auto_detect_entries:
  "map_of (auto_detect_and_decode data) ''base64'' = base64_entry data \<and>
   map_of (auto_detect_and_decode data) ''rot13'' = rot13_entry data \<and>
   map_of (auto_detect_and_decode data) ''base64_then_rot13'' =
     (case map_of (auto_detect_and_decode data) ''base64'' of
        None \<Rightarrow> None | Some b \<Rightarrow> nonempty (decode_rot13 (Str b))) \<and>
   map_of (auto_detect_and_decode data) ''rot13_then_base64'' =
     (case nonempty (decode_rot13 (Str data)) of
        None \<Rightarrow> None | Some r \<Rightarrow> nonempty (decode_base64 (Str r))) \<and>
   fst ` set (auto_detect_and_decode data) \<subseteq>
     {''base64'', ''rot13'', ''base64_then_rot13'', ''rot13_then_base64''}"
proof -
  have 1: "map_of (auto_detect_and_decode data) ''base64'' = base64_entry data"
    unfolding auto_detect_form by (rule map_of_four(1))
  have 2: "map_of (auto_detect_and_decode data) ''rot13'' = rot13_entry data"
    unfolding auto_detect_form by (rule map_of_four(2))
  have 3: "map_of (auto_detect_and_decode data) ''base64_then_rot13'' =
      (case base64_entry data of None \<Rightarrow> None | Some b \<Rightarrow> nonempty (decode_rot13 (Str b)))"
    unfolding auto_detect_form by (rule map_of_four(3))
  have 4: "map_of (auto_detect_and_decode data) ''rot13_then_base64'' =
      (case nonempty (decode_rot13 (Str data)) of
         None \<Rightarrow> None | Some r \<Rightarrow> nonempty (decode_base64 (Str r)))"
    unfolding auto_detect_form by (rule map_of_four(4))
  have 5: "fst ` set (auto_detect_and_decode data) \<subseteq>
      {''base64'', ''rot13'', ''base64_then_rot13'', ''rot13_then_base64''}"
    unfolding auto_detect_form by (rule map_of_four(5))
  show ?thesis
    unfolding 1 2 3 4 using 5 by simp
qed

lemma unat_of_nat_byte: "c < 256 \<Longrightarrow> unat (of_nat c :: byte) = c"
  by (simp add: unat_of_nat)

lemma b64_or_pad_not_space: "is_b64_or_pad c \<Longrightarrow> \<not> py_isspace c"
  by (auto simp: is_b64_or_pad_def b64_value_def py_isspace_def split: if_splits)

lemma b64_or_pad_ascii: "is_b64_or_pad c \<Longrightarrow> c < 128"
  by (auto simp: is_b64_or_pad_def b64_value_def split: if_splits)

lemma filter_dropWhile_disjoint:
  "(\<And>c. P c \<Longrightarrow> \<not> Q c) \<Longrightarrow> filter P (dropWhile Q s) = filter P s"
  by (induction s) auto

lemma filter_str_strip: "filter is_b64_or_pad (str_strip s) = filter is_b64_or_pad s"
proof -
  have "filter is_b64_or_pad (str_strip s)
      = rev (filter is_b64_or_pad (dropWhile py_isspace (rev (dropWhile py_isspace s))))"
    by (simp add: str_strip_def rev_filter)
  also have "\<dots> = rev (filter is_b64_or_pad (rev (dropWhile py_isspace s)))"
    by (simp add: filter_dropWhile_disjoint b64_or_pad_not_space)
  also have "\<dots> = filter is_b64_or_pad (dropWhile py_isspace s)"
    by (simp add: rev_filter [symmetric])
  also have "\<dots> = filter is_b64_or_pad s"
    by (simp add: filter_dropWhile_disjoint b64_or_pad_not_space)
  finally show ?thesis .
qed

lemma a2b_loop_filter:
  "a2b_loop q l p (filter (\<lambda>b. is_b64_or_pad (unat b)) cs) out = a2b_loop q l p cs out"
proof (induction cs arbitrary: q l p out)
  case Nil
  show ?case by simp
next
  case (Cons c cs)
  show ?case
  proof (cases "c = 61")
    case True
    then show ?thesis using Cons by (simp add: is_b64_or_pad_def)
  next
    case False
    then have ne: "unat c \<noteq> 61"
      by (simp add: word_unat_eq_iff)
    show ?thesis
    proof (cases "b64_value (unat c)")
      case None
      then show ?thesis using False ne Cons by (simp add: is_b64_or_pad_def)
    next
      case (Some v)
      then show ?thesis using False Cons by (simp add: is_b64_or_pad_def)
    qed
  qed
qed

lemma filter_map_of_nat:
  "list_all (\<lambda>c. c < 128) s \<Longrightarrow>
   filter (\<lambda>b. is_b64_or_pad (unat b)) (map of_nat s :: byte list) = map of_nat (filter is_b64_or_pad s)"
  by (induction s) (simp_all add: unat_of_nat_byte)

lemma a2b_base64_ascii:
  assumes "\<not> list_ex (\<lambda>c. 128 \<le> c) t"
  shows "a2b_base64 (map of_nat t) = a2b_base64 (map of_nat (filter is_b64_or_pad t))"
proof -
  have all: "list_all (\<lambda>c. c < 128) t"
    using assms by (induction t) auto
  have "a2b_loop 0 0 0 (map of_nat t) [] =
        a2b_loop 0 0 0 (filter (\<lambda>b. is_b64_or_pad (unat b)) (map of_nat t :: byte list)) []"
    by (simp only: a2b_loop_filter)
  then show ?thesis
    by (simp add: a2b_base64_def filter_map_of_nat [OF all])
qed

lemma decode_base64_None_iff:
  "decode_base64 (Str s) = None \<longleftrightarrow>
     list_ex (\<lambda>c. 128 \<le> c) (str_strip s) \<or>
     a2b_base64 (map of_nat (filter is_b64_or_pad s)) = Inl BinasciiError"
proof (cases "list_ex (\<lambda>c. 128 \<le> c) (str_strip s)")
  case True
  then show ?thesis by (simp add: decode_base64_def b64decode_def ascii_encode_def)
next
  case False
  have "a2b_base64 (map of_nat (str_strip s)) = a2b_base64 (map of_nat (filter is_b64_or_pad s))"
    using a2b_base64_ascii [OF False] by (simp add: filter_str_strip)
  then show ?thesis
    using False
    by (auto simp: decode_base64_def b64decode_def ascii_encode_def a2b_base64_def
        split: sum.splits option.splits)
qed

lemma padding_from_iff: "padding_from q p f \<longleftrightarrow> (\<exists>i<length f. pad_at q p f i)"
  by (auto simp: padding_from_def list_ex_iff)

lemma padding_from_Nil: "\<not> padding_from q p []"
  by (simp add: padding_from_def)

lemma padding_from_Cons:
  "padding_from q p (c # f) \<longleftrightarrow> pad_at q p (c # f) 0 \<or> (\<exists>j<length f. pad_at q p (c # f) (Suc j))"
  unfolding padding_from_iff length_Cons Ex_less_Suc2 ..

lemma alphabet_count_Cons:
  "alphabet_count (c # f) = (if b64_value c \<noteq> None then 1 else 0) + alphabet_count f"
  by (simp add: alphabet_count_def)

lemma b64_value_61: "b64_value 61 = None"
  by (simp add: b64_value_def)

lemma pad_at_0:
  "pad_at q p (c # f) 0 \<longleftrightarrow> c = 61 \<and> (q mod 4 = 3 \<or> (q mod 4 = 2 \<and> 1 \<le> p))"
  by (simp add: pad_at_def alphabet_count_def)

lemma pad_at_Suc_pad: "pad_at q p (61 # f) (Suc j) \<longleftrightarrow> pad_at q 1 f j"
  by (cases j) (simp_all add: pad_at_def alphabet_count_Cons b64_value_61)

lemma pad_at_Suc_char:
  assumes "b64_value c \<noteq> None"
  shows "pad_at q p (c # f) (Suc j) \<longleftrightarrow> pad_at ((q + 1) mod 4) 0 f j"
proof -
  have c: "c \<noteq> 61" using assms by (auto simp: b64_value_61)
  have m: "(Suc q mod 4 + a) mod 4 = Suc (q + a) mod 4" for a
    by (simp add: mod_add_left_eq)
  show ?thesis
    using c assms by (cases j) (simp_all add: pad_at_def alphabet_count_Cons m)
qed

lemma pad_at_low:
  assumes "q < 2"
  shows "pad_at q p f j \<longleftrightarrow> pad_at q p' f j"
proof (cases j)
  case 0
  have "q mod 4 = q" using assms by simp
  then show ?thesis using 0 assms by (simp add: pad_at_def alphabet_count_def)
next
  case (Suc n)
  then show ?thesis by (simp add: pad_at_def)
qed

lemma padding_from_pad_done:
  "2 \<le> q \<Longrightarrow> q < 4 \<Longrightarrow> 4 \<le> q + p + 1 \<Longrightarrow> padding_from q p (61 # f)"
proof -
  assume a: "2 \<le> q" "q < 4" "4 \<le> q + p + 1"
  then have "q = 2 \<or> q = 3" by linarith
  then have "pad_at q p (61 # f) 0"
    using a by (auto simp: pad_at_0)
  then show ?thesis by (simp add: padding_from_Cons)
qed

lemma padding_from_pad_first: "padding_from 2 0 (61 # f) \<longleftrightarrow> padding_from 2 1 f"
  by (simp add: padding_from_Cons pad_at_0 pad_at_Suc_pad padding_from_iff [of 2 "Suc 0" f])

lemma padding_from_pad_ignored:
  assumes "q < 2"
  shows "padding_from q p (61 # f) \<longleftrightarrow> padding_from q p f"
proof -
  have "q mod 4 = q" using assms by simp
  then have "\<not> pad_at q p (61 # f) 0" using assms by (simp add: pad_at_0)
  then have "padding_from q p (61 # f) \<longleftrightarrow> (\<exists>j<length f. pad_at q 1 f j)"
    by (simp only: padding_from_Cons pad_at_Suc_pad simp_thms)
  also have "\<dots> \<longleftrightarrow> (\<exists>j<length f. pad_at q p f j)"
    using pad_at_low [OF assms, of 1 f _ p] by simp
  finally show ?thesis by (simp only: padding_from_iff)
qed

lemma padding_from_char:
  assumes "b64_value c \<noteq> None"
  shows "padding_from q p (c # f) \<longleftrightarrow> padding_from ((q + 1) mod 4) 0 f"
proof -
  have c: "c \<noteq> 61" using assms by (auto simp: b64_value_61)
  then have "\<not> pad_at q p (c # f) 0" by (simp add: pad_at_0)
  then have "padding_from q p (c # f) \<longleftrightarrow> (\<exists>j<length f. pad_at ((q + 1) mod 4) 0 f j)"
    by (simp only: padding_from_Cons pad_at_Suc_char [OF assms] simp_thms)
  then show ?thesis by (simp only: padding_from_iff [of "(q + 1) mod 4" 0 f])
qed

lemma of_nat_byte_61: "c < 128 \<Longrightarrow> (of_nat c :: byte) = 61 \<longleftrightarrow> c = 61"
proof
  assume c: "c < 128" and "(of_nat c :: byte) = 61"
  then have "unat (of_nat c :: byte) = unat (61 :: byte)" by simp
  then show "c = 61" using c by (simp add: unat_of_nat_byte)
next
  assume "c = 61"
  then show "(of_nat c :: byte) = 61" by simp
qed

lemma a2b_loop_None_iff:
  "list_all is_b64_or_pad f \<Longrightarrow> q < 4 \<Longrightarrow> p = 0 \<or> (q = 2 \<and> p = 1) \<Longrightarrow>
   (a2b_loop q l p (map of_nat f) out = None) \<longleftrightarrow>
     (\<not> padding_from q p f \<and> (q + alphabet_count f) mod 4 \<noteq> 0)"
proof (induction f arbitrary: q l p out)
  case Nil
  then show ?case by (simp add: padding_from_Nil alphabet_count_def)
next
  case (Cons c f)
  from Cons.prems(1) have cb: "is_b64_or_pad c" and rest: "list_all is_b64_or_pad f" by simp_all
  have c128: "c < 128" using cb by (rule b64_or_pad_ascii)
  then have un: "unat (of_nat c :: byte) = c" by (simp add: unat_of_nat_byte)
  show ?case
  proof (cases "c = 61")
    case True
    then have c61: "(of_nat c :: byte) = 61" by simp
    show ?thesis
    proof (cases "2 \<le> q")
      case q2: True
      show ?thesis
      proof (cases "4 \<le> q + p + 1")
        case True
        have "padding_from q p (61 # f)"
          by (rule padding_from_pad_done [OF q2 Cons.prems(2) True])
        then show ?thesis using True q2 \<open>c = 61\<close> by simp
      next
        case False
        then have qp: "q = 2" "p = 0" using q2 Cons.prems(3) by auto
        have "a2b_loop q l p (map of_nat (c # f)) out = a2b_loop 2 l 1 (map of_nat f) out"
          using qp \<open>c = 61\<close> by simp
        moreover have "(a2b_loop 2 l 1 (map of_nat f) out = None) \<longleftrightarrow>
            (\<not> padding_from 2 1 f \<and> (2 + alphabet_count f) mod 4 \<noteq> 0)"
          by (rule Cons.IH [OF rest]) simp_all
        ultimately show ?thesis
          using qp \<open>c = 61\<close> by (simp add: padding_from_pad_first alphabet_count_Cons b64_value_61)
      qed
    next
      case False
      then have q2: "q < 2" by simp
      then have p0: "p = 0" using Cons.prems(3) by auto
      have "a2b_loop q l p (map of_nat (c # f)) out = a2b_loop q l p (map of_nat f) out"
        using q2 \<open>c = 61\<close> by simp
      moreover have "(a2b_loop q l p (map of_nat f) out = None) \<longleftrightarrow>
            (\<not> padding_from q p f \<and> (q + alphabet_count f) mod 4 \<noteq> 0)"
        by (rule Cons.IH [OF rest Cons.prems(2)]) (simp add: p0)
      ultimately show ?thesis
        using \<open>c = 61\<close> by (simp add: padding_from_pad_ignored [OF q2] alphabet_count_Cons b64_value_61)
    qed
  next
    case False
    then have ne: "(of_nat c :: byte) \<noteq> 61" using of_nat_byte_61 [OF c128] by simp
    from cb False obtain v where v: "b64_value c = Some v" by (auto simp: is_b64_or_pad_def)
    have vn: "b64_value c \<noteq> None" using v by simp
    have ih: "(a2b_loop q' l' 0 (map of_nat f) out' = None) \<longleftrightarrow>
            (\<not> padding_from q' 0 f \<and> (q' + alphabet_count f) mod 4 \<noteq> 0)" if "q' < 4" for q' l' out'
      by (rule Cons.IH [OF rest that]) simp
    have m: "(q + alphabet_count (c # f)) mod 4 = ((q + 1) mod 4 + alphabet_count f) mod 4"
      using vn by (simp add: alphabet_count_Cons mod_add_left_eq)
    have fin: ?thesis
      if step: "a2b_loop q l p (map of_nat (c # f)) out = a2b_loop q' l' 0 (map of_nat f) out'"
        and e: "(q + 1) mod 4 = q'" for q' l' out'
    proof -
      have lt: "q' < 4" using e by auto
      show ?thesis
        by (simp only: step ih [OF lt] padding_from_char [OF vn] m e)
    qed
    consider "q = 0" | "q = 1" | "q = 2" | "q = 3" using Cons.prems(2) by linarith
    then show ?thesis
    proof cases
      case 1
      show ?thesis
        by (rule fin [of 1 v out]) (simp_all add: 1 ne v un)
    next
      case 2
      show ?thesis
        by (rule fin [of 2 "v mod 16" "out @ [of_nat (l * 4 + v div 16)]"]) (simp_all add: 2 ne v un)
    next
      case 3
      show ?thesis
        by (rule fin [of 3 "v mod 4" "out @ [of_nat (l * 16 + v div 4)]"]) (simp_all add: 3 ne v un)
    next
      case 4
      show ?thesis
        by (rule fin [of 0 0 "out @ [of_nat (l * 64 + v)]"]) (simp_all add: 4 ne v un)
    qed
  qed
qed

lemma alphabet_count_filter: "alphabet_count (filter is_b64_or_pad s) = alphabet_count s"
proof -
  have "(\<lambda>x. is_b64_or_pad x \<and> b64_value x \<noteq> None) = (\<lambda>x. b64_value x \<noteq> None)"
    by (auto simp: is_b64_or_pad_def)
  then show ?thesis by (simp add: alphabet_count_def)
qed

lemma complete_padding_eq:
  "complete_padding s = padding_from 0 0 (filter is_b64_or_pad s)"
proof -
  have pw: "pad_at 0 0 f i \<longleftrightarrow>
          f ! i = 61 \<and> (alphabet_count (take i f) mod 4 = 3 \<or>
                         (alphabet_count (take i f) mod 4 = 2 \<and> 0 < i \<and> f ! (i - 1) = 61))" for f i
    by (cases i) (simp_all add: pad_at_def alphabet_count_def)
  have e: "pad_at 0 0 f =
          (\<lambda>i. f ! i = 61 \<and> (alphabet_count (take i f) mod 4 = 3 \<or>
                         (alphabet_count (take i f) mod 4 = 2 \<and> 0 < i \<and> f ! (i - 1) = 61)))" for f
    by (rule ext) (rule pw)
  show ?thesis
    by (simp only: complete_padding_def padding_from_def Let_def e)
qed

lemma a2b_base64_failure_iff:
  "a2b_base64 (map of_nat (filter is_b64_or_pad s)) = Inl BinasciiError \<longleftrightarrow>
     alphabet_count s mod 4 \<noteq> 0 \<and> \<not> complete_padding s"
proof -
  have all: "list_all is_b64_or_pad (filter is_b64_or_pad s)" by (simp add: list_all_iff)
  have "(a2b_loop 0 0 0 (map of_nat (filter is_b64_or_pad s)) [] = None) \<longleftrightarrow>
     (\<not> padding_from 0 0 (filter is_b64_or_pad s) \<and>
      (0 + alphabet_count (filter is_b64_or_pad s)) mod 4 \<noteq> 0)"
    by (rule a2b_loop_None_iff [OF all]) simp_all
  then show ?thesis
    by (auto simp: a2b_base64_def complete_padding_eq alphabet_count_filter split: option.splits)
qed

text \<open>
  C3 (amended). \<open>decode_base64\<close> fails exactly when the stripped input has a non-ASCII
  character, or when the number of alphabet characters of the input is not a multiple of 4 and
  the input has no complete padding. Every other character outside the alphabet is discarded:
  it does not make the decoding fail, and neither does a \<open>=\<close> that completes no padding
  when the alphabet characters come in a multiple of 4.
\<close>

theorem decode_base64_failure:
  "decode_base64 (Str s) = None \<longleftrightarrow>
     list_ex (\<lambda>c. 128 \<le> c) (str_strip s) \<or>
     (alphabet_count s mod 4 \<noteq> 0 \<and> \<not> complete_padding s)"
  unfolding decode_base64_None_iff a2b_base64_failure_iff ..

text \<open>
  \<open>"QQ="\<close> and \<open>"SGVsbG8"\<close> fail; \<open>"QUJD="\<close>, with a \<open>=\<close> too many, and
  \<open>"Q!Q=.="\<close>, with characters outside the alphabet, decode.
\<close>

lemmas pad_defs = alphabet_count_def complete_padding_def Let_def is_b64_or_pad_def
  b64_value_def py_def

theorem decode_base64_failure_witness:
  "decode_base64 (Str (py ''QQ='')) = None \<and> decode_base64 (Str (py ''SGVsbG8'')) = None \<and>
   decode_base64 (Str (py ''QUJD='')) \<noteq> None \<and> decode_base64 (Str (py ''Q!Q=.='')) \<noteq> None"
proof -
  have 1: "\<not> list_ex (\<lambda>c. 128 \<le> c) (str_strip (py ''QQ=''))"
          "alphabet_count (py ''QQ='') mod 4 \<noteq> 0" "\<not> complete_padding (py ''QQ='')"
    by (simp_all add: pad_defs str_strip_def py_isspace_def upt_rec)
  have 2: "\<not> list_ex (\<lambda>c. 128 \<le> c) (str_strip (py ''SGVsbG8''))"
          "alphabet_count (py ''SGVsbG8'') mod 4 \<noteq> 0" "\<not> complete_padding (py ''SGVsbG8'')"
    by (simp_all add: pad_defs str_strip_def py_isspace_def upt_rec)
  have 3: "\<not> list_ex (\<lambda>c. 128 \<le> c) (str_strip (py ''QUJD=''))"
          "alphabet_count (py ''QUJD='') mod 4 = 0"
    by (simp_all add: pad_defs str_strip_def py_isspace_def upt_rec)
  have 4: "\<not> list_ex (\<lambda>c. 128 \<le> c) (str_strip (py ''Q!Q=.=''))"
          "complete_padding (py ''Q!Q=.='')"
    by (simp_all add: pad_defs str_strip_def py_isspace_def upt_rec)
  show ?thesis
    using decode_base64_failure [of "py ''QQ=''"] decode_base64_failure [of "py ''SGVsbG8''"]
          decode_base64_failure [of "py ''QUJD=''"] decode_base64_failure [of "py ''Q!Q=.=''"]
          1 2 3 4
    by simp
qed

text \<open>
  The input \<open>"SGVs!bG8="\<close> has the character \<open>!\<close>, outside the alphabet and not
  whitespace, and decodes to \<open>"Hello"\<close>.
\<close>

theorem decode_base64_counterexample:
  "list_ex (\<lambda>c. c \<notin> base64_chars \<and> \<not> py_isspace c) (py ''SGVs!bG8='') \<and>
   decode_base64 (Str (py ''SGVs!bG8='')) = Some (py ''Hello'')"
  by (simp add: dec_defs base64_chars_def)

section \<open>Properties of the block-cipher key and of \<open>decrypt_final\<close>\<close>

lemma normalize_key_25: "length (normalize_key (replicate 25 97)) = 25"
  by (simp add: normalize_key_def bytes_ljust_def)

lemma normalize_key_length:
  "length (normalize_key key) =
     (if length key < 24 then 16 else if length key < 32 then length key else 32)"
  by (simp add: normalize_key_def bytes_ljust_def)

text \<open>
  C2. The key normalisation of \<open>aes_decrypt\<close> is meant to give 16, 24 or 32 bytes (its own
  comment says so), but \<open>ljust(24)\<close> pads and never truncates: a key of 25 bytes keeps
  its 25 bytes, and the cipher constructor then rejects it.
\<close>

theorem aes_decrypt_key_25:
  "length (normalize_key (replicate 25 97)) = 25 \<and>
   aes_decrypt ext data (Bytes (replicate 25 97)) None = Inl ValueError"
  by (simp add: aes_decrypt_def as_bytes_def normalize_key_length Let_def)

lemma surrogate_not_ascii: "list_ex is_surrogate s \<Longrightarrow> list_ex (\<lambda>c. 128 \<le> c) s"
  by (induction s) (auto simp: is_surrogate_def)

lemma encrypted_bytes_unencodable:
  "unencodable v \<Longrightarrow> encrypted_bytes v = Inl UnicodeEncodeError"
proof (cases v)
  case (Str s)
  assume "unencodable v"
  then have s: "list_ex is_surrogate s" using Str by (simp add: unencodable_def)
  then have "b64decode (Str s) = Inl ValueError"
    using surrogate_not_ascii [OF s] by (simp add: b64decode_def ascii_encode_def)
  then show ?thesis using s Str by (simp add: encrypted_bytes_def str_encode_def)
next
  case (Bytes b)
  assume "unencodable v"
  then show ?thesis using Bytes by (simp add: unencodable_def)
qed

lemma encrypted_bytes_encodable:
  "\<not> unencodable v \<Longrightarrow> \<exists>eb. encrypted_bytes v = Inr eb"
proof (cases v)
  case (Str s)
  assume "\<not> unencodable v"
  then have s: "\<not> list_ex is_surrogate s" using Str by (simp add: unencodable_def)
  show ?thesis
  proof (cases "b64decode (Str s)")
    case (Inl e)
    then show ?thesis using s Str by (simp add: encrypted_bytes_def str_encode_def)
  next
    case (Inr b)
    then show ?thesis using Str by (simp add: encrypted_bytes_def)
  qed
next
  case (Bytes b)
  then show ?thesis by (simp add: encrypted_bytes_def)
qed

lemma decrypt_final_choice:
  assumes "encrypted_bytes encrypted_data = Inr eb"
  shows "decrypt_final ext encrypted_data key ''auto'' =
           Inr (auto_choice (isalpha ext) (xor_result eb key) (aes_result ext eb key))"
proof (cases "xor_result eb key")
  case None
  show ?thesis
  proof (cases "aes_result ext eb key")
    case None
    with \<open>xor_result eb key = None\<close> assms show ?thesis
      by (simp add: decrypt_final_def auto_choice_def qualifies_def)
  next
    case (Some a)
    with None assms show ?thesis
      by (auto simp: decrypt_final_def auto_choice_def qualifies_def)
  qed
next
  case (Some x)
  show ?thesis
  proof (cases "aes_result ext eb key")
    case None
    with Some assms show ?thesis
      by (auto simp: decrypt_final_def auto_choice_def qualifies_def)
  next
    case a: (Some a)
    with Some assms show ?thesis
      by (auto simp: decrypt_final_def auto_choice_def qualifies_def)
  qed
qed

text \<open>
  C5. \<open>decrypt_final\<close> is documented to return the decrypted string, or \<open>None\<close> if
  decryption fails, and it wraps every decryption in \<open>try\<close>. The conversion of a string to
  bytes is not protected: when the data is a string with a lone surrogate, such as U+DCFF,
  \<open>b64decode\<close> fails, \<open>encode()\<close> in the \<open>except\<close> branch raises
  \<open>UnicodeEncodeError\<close>, and the call returns nothing. On every other data the method
  \<open>auto\<close> computes the XOR result and the block-cipher result (each absent when its
  decryption raised) and returns \<open>auto_choice\<close> of them: the XOR text when it has an
  alphabetic character, else the block-cipher text when it has one, else whichever result exists
  (the XOR one first), else \<open>None\<close>.
\<close>

theorem decrypt_final_auto:
  "decrypt_final ext (Str [0xDCFF]) key ''auto'' = Inl UnicodeEncodeError \<and>
   (unencodable encrypted_data \<longrightarrow>
      decrypt_final ext encrypted_data key ''auto'' = Inl UnicodeEncodeError) \<and>
   (\<not> unencodable encrypted_data \<longrightarrow>
      (\<exists>eb. encrypted_bytes encrypted_data = Inr eb \<and>
            decrypt_final ext encrypted_data key ''auto'' =
              Inr (auto_choice (isalpha ext) (xor_result eb key) (aes_result ext eb key))))"
proof (intro conjI impI)
  have "unencodable (Str [0xDCFF])" by (simp add: unencodable_def is_surrogate_def)
  then show "decrypt_final ext (Str [0xDCFF]) key ''auto'' = Inl UnicodeEncodeError"
    by (simp add: decrypt_final_def encrypted_bytes_unencodable)
next
  assume "unencodable encrypted_data"
  then show "decrypt_final ext encrypted_data key ''auto'' = Inl UnicodeEncodeError"
    by (simp add: decrypt_final_def encrypted_bytes_unencodable)
next
  assume "\<not> unencodable encrypted_data"
  then obtain eb where eb: "encrypted_bytes encrypted_data = Inr eb"
    using encrypted_bytes_encodable by blast
  with decrypt_final_choice [OF eb]
  show "\<exists>eb. encrypted_bytes encrypted_data = Inr eb \<and>
            decrypt_final ext encrypted_data key ''auto'' =
              Inr (auto_choice (isalpha ext) (xor_result eb key) (aes_result ext eb key))"
    by blast
qed

text \<open>
  The failing data, and 16 bytes \<open>J\<close> with the key \<open>"k"\<close>: both results exist, the XOR
  text \<open>"!!!!!!!!!!!!!!!!"\<close> has no letter, the block-cipher text (of a cipher that returns
  its input) is returned.
\<close>

theorem decrypt_final_auto_witness:
  "unencodable (Str [0xDCFF]) \<and>
   decrypt_final \<lparr>sha256 = \<lambda>k. replicate 32 0, aes_cbc_decrypt = \<lambda>k iv d. d,
                   isalpha = \<lambda>c. (65 \<le> c \<and> c \<le> 90) \<or> (97 \<le> c \<and> c \<le> 122)\<rparr>
     (Str [0xDCFF]) (Str (py ''k'')) ''auto'' = Inl UnicodeEncodeError \<and>
   \<not> unencodable (Bytes [74, 74, 74, 74, 74, 74, 74, 74, 74, 74, 74, 74, 74, 74, 74, 74]) \<and>
   xor_result [74, 74, 74, 74, 74, 74, 74, 74, 74, 74, 74, 74, 74, 74, 74, 74] (Str (py ''k''))
     = Some (py ''!!!!!!!!!!!!!!!!'') \<and>
   decrypt_final \<lparr>sha256 = \<lambda>k. replicate 32 0, aes_cbc_decrypt = \<lambda>k iv d. d,
                   isalpha = \<lambda>c. (65 \<le> c \<and> c \<le> 90) \<or> (97 \<le> c \<and> c \<le> 122)\<rparr>
     (Bytes [74, 74, 74, 74, 74, 74, 74, 74, 74, 74, 74, 74, 74, 74, 74, 74]) (Str (py ''k'')) ''auto''
     = Inr (Some (py ''JJJJJJJJJJJJJJJJ''))"
proof -
  let ?ext = "\<lparr>sha256 = \<lambda>k. replicate 32 0, aes_cbc_decrypt = \<lambda>k iv d. d,
                   isalpha = \<lambda>c. (65 \<le> c \<and> c \<le> 90) \<or> (97 \<le> c \<and> c \<le> 122)\<rparr>"
  let ?d = "[74, 74, 74, 74, 74, 74, 74, 74, 74, 74, 74, 74, 74, 74, 74, 74] :: byte list"
  have u: "unencodable (Str [0xDCFF])" by (simp add: unencodable_def is_surrogate_def)
  have n: "\<not> unencodable (Bytes ?d)" by (simp add: unencodable_def)
  have eb: "encrypted_bytes (Bytes ?d) = Inr ?d" by (simp add: encrypted_bytes_def)
  have k: "as_bytes (Str (py ''k'')) = Inr [107]"
    by (simp add: as_bytes_def str_encode_def py_def is_surrogate_def utf8_encode_char_def)
  have "key_stream_xor ?d [107] = [33, 33, 33, 33, 33, 33, 33, 33, 33, 33, 33, 33, 33, 33, 33, 33]"
    by (simp add: key_stream_xor_def upt_rec)
  then have x: "xor_result ?d (Str (py ''k'')) = Some (py ''!!!!!!!!!!!!!!!!'')"
    using xor_decrypt_stream [OF k, of ?d] by (simp add: xor_result_def utf8_decode_ignore_def py_def)
  have nk: "normalize_key [107] = [107, 0, 0, 0, 0, 0, 0, 0, 0, 0, 0, 0, 0, 0, 0, 0]"
    by (simp add: normalize_key_def bytes_ljust_def eval_nat_numeral)
  have "aes_decrypt ?ext ?d (Str (py ''k'')) None = Inr ?d"
    by (simp add: aes_decrypt_def k nk pkcs7_unpad_def Let_def)
  then have a: "aes_result ?ext ?d (Str (py ''k'')) = Some (py ''JJJJJJJJJJJJJJJJ'')"
    by (simp add: aes_result_def utf8_decode_ignore_def py_def)
  show ?thesis
    using decrypt_final_auto [of ?ext "Str (py ''k'')" "Str [0xDCFF]"]
          decrypt_final_auto [of ?ext "Str (py ''k'')" "Bytes ?d"] u n eb x a
    by (simp add: auto_choice_def qualifies_def py_def)
qed


section \<open>Properties of the strict bit-stream decoding\<close>

lemma bytes_of_bits_Nil: "bytes_of_bits [] = []"
  by (subst bytes_of_bits.simps) simp

lemma bytes_of_bits_Cons8:
  "bytes_of_bits (b7 # b6 # b5 # b4 # b3 # b2 # b1 # b0 # rest) =
     int_of_bits [b7, b6, b5, b4, b3, b2, b1, b0] # bytes_of_bits rest"
  by (subst bytes_of_bits.simps) simp

lemma strict_loop_eq:
  "strict_loop bits r =
     \<lparr>raw_bytes = raw_bytes r @ takeWhile (\<lambda>v. v \<noteq> 0) (bytes_of_bits bits)
                    @ take 1 (dropWhile (\<lambda>v. v \<noteq> 0) (bytes_of_bits bits)),
      ascii_text = ascii_text r @ filter printable (takeWhile (\<lambda>v. v \<noteq> 0) (bytes_of_bits bits)),
      possibly_corrupted = (possibly_corrupted r \<or>
         list_ex (\<lambda>v. \<not> printable v) (takeWhile (\<lambda>v. v \<noteq> 0) (bytes_of_bits bits)))\<rparr>"
proof (induction bits r rule: strict_loop.induct)
  case (1 bits r)
  show ?case
  proof (cases "length bits < 8")
    case True
    then show ?thesis
      by (subst strict_loop.simps, subst (1 2 3 4) bytes_of_bits.simps) simp
  next
    case False
    let ?v = "int_of_bits (take 8 bits)"
    have b: "bytes_of_bits bits = ?v # bytes_of_bits (drop 8 bits)"
      using False by (subst bytes_of_bits.simps) simp
    show ?thesis
    proof (cases "printable ?v")
      case True
      then have nz: "?v \<noteq> 0" by (auto simp: printable_def)
      show ?thesis
        using False True nz "1.IH"(1) [OF False refl refl True]
        by (subst strict_loop.simps) (simp add: b Let_def)
    next
      case np: False
      show ?thesis
      proof (cases "?v = 0")
        case True
        then show ?thesis using False np
          by (subst strict_loop.simps) (simp add: b Let_def)
      next
        case nz: False
        show ?thesis
          using False np nz "1.IH"(2) [OF False refl refl np nz]
          by (subst strict_loop.simps) (simp add: b Let_def)
      qed
    qed
  qed
qed

text \<open>
  C4 (amended). In strict decoding the extraction of bytes stops at the first null byte (which
  is still recorded among the raw bytes); a non-null byte that is not printable sets
  \<open>possibly_corrupted\<close> and does not stop the extraction; and \<open>ascii_text\<close> is made of
  all the printable bytes before the first null byte: the non-printable ones are skipped, the
  text goes on after them.
\<close>

theorem decode_strict_result:
  "raw_bytes (decode_strict bits) =
     takeWhile (\<lambda>v. v \<noteq> 0) (bytes_of_bits bits) @ take 1 (dropWhile (\<lambda>v. v \<noteq> 0) (bytes_of_bits bits)) \<and>
   ascii_text (decode_strict bits) =
     filter printable (takeWhile (\<lambda>v. v \<noteq> 0) (bytes_of_bits bits)) \<and>
   possibly_corrupted (decode_strict bits) =
     list_ex (\<lambda>v. \<not> printable v) (takeWhile (\<lambda>v. v \<noteq> 0) (bytes_of_bits bits))"
  by (simp add: decode_strict_def strict_loop_eq)

text \<open>
  The bytes \<open>65, 1, 66, 0, 67\<close>: the printable prefix before the first non-printable byte is
  \<open>"A"\<close>, the text extracted is \<open>"AB"\<close>.
\<close>

theorem decode_strict_counterexample:
  "bytes_of_bits
     ([False, True, False, False, False, False, False, True, False, False, False,
      False, False, False, False, True, False, True, False, False, False, False, True,
      False, False, False, False, False, False, False, False, False, False, True,
      False, False, False, False, True, True]) = [65, 1, 66, 0, 67] \<and>
   takeWhile printable [65, 1, 66, 0, 67] = [65] \<and>
   ascii_text (decode_strict
     ([False, True, False, False, False, False, False, True, False, False, False,
      False, False, False, False, True, False, True, False, False, False, False, True,
      False, False, False, False, False, False, False, False, False, False, True,
      False, False, False, False, True, True])) = [65, 66]"
proof -
  have b: "bytes_of_bits
     ([False, True, False, False, False, False, False, True, False, False, False,
      False, False, False, False, True, False, True, False, False, False, False, True,
      False, False, False, False, False, False, False, False, False, False, True,
      False, False, False, False, True, True]) = [65, 1, 66, 0, 67]"
    by (simp add: bytes_of_bits_Cons8 bytes_of_bits_Nil int_of_bits_def)
  show ?thesis
    unfolding strict_loop_eq decode_strict_def b by (simp add: printable_def)
qed


section \<open>Properties of the spiral traversal\<close>

lemma seg_0: "seg x y dx dy 0 = {}"
  by (auto simp: seg_def)

lemma seg_Suc:
  "seg x y dx dy (Suc n) = insert (x + dx, y + dy) (seg (x + dx) (y + dy) dx dy n)"
proof (rule set_eqI, rule iffI)
  fix p assume "p \<in> seg x y dx dy (Suc n)"
  then obtain j where j: "p = (x + j * dx, y + j * dy)" "1 \<le> j" "j \<le> int (Suc n)"
    by (auto simp: seg_def)
  show "p \<in> insert (x + dx, y + dy) (seg (x + dx) (y + dy) dx dy n)"
  proof (cases "j = 1")
    case True
    then show ?thesis using j by simp
  next
    case False
    then have "1 \<le> j - 1" "j - 1 \<le> int n" using j by simp_all
    moreover have "p = (x + dx + (j - 1) * dx, y + dy + (j - 1) * dy)"
      using j by (simp add: algebra_simps)
    ultimately have "p \<in> seg (x + dx) (y + dy) dx dy n"
      unfolding seg_def by blast
    then show ?thesis by simp
  qed
next
  fix p assume "p \<in> insert (x + dx, y + dy) (seg (x + dx) (y + dy) dx dy n)"
  then consider "p = (x + dx, y + dy)" | "p \<in> seg (x + dx) (y + dy) dx dy n" by auto
  then show "p \<in> seg x y dx dy (Suc n)"
  proof cases
    case 1
    have "p = (x + 1 * dx, y + 1 * dy)" using 1 by simp
    moreover have "(1::int) \<le> 1" "(1::int) \<le> int (Suc n)" by simp_all
    ultimately show ?thesis unfolding seg_def by blast
  next
    case 2
    then obtain j where j: "p = (x + dx + j * dx, y + dy + j * dy)" "1 \<le> j" "j \<le> int n"
      by (auto simp: seg_def)
    have "p = (x + (j + 1) * dx, y + (j + 1) * dy)" using j by (simp add: algebra_simps)
    moreover have "1 \<le> j + 1" "j + 1 \<le> int (Suc n)" using j by simp_all
    ultimately show ?thesis unfolding seg_def by blast
  qed
qed

lemma seg_not_start:
  assumes "dx \<noteq> 0 \<or> dy \<noteq> 0"
  shows "(x, y) \<notin> seg x y dx dy n"
proof
  assume "(x, y) \<in> seg x y dx dy n"
  then obtain j where j: "x = x + j * dx" "y = y + j * dy" "1 \<le> j" by (auto simp: seg_def)
  then have "j * dx = 0" "j * dy = 0" by simp_all
  then show False using j(3) assms by auto
qed

lemma leg_inv:
  assumes "distinct cs" and "set cs \<subseteq> box w h" and "seg x y dx dy n \<inter> set cs = {}"
      and "dx \<noteq> 0 \<or> dy \<noteq> 0"
  shows "distinct (coords (leg w h dx dy n (x, y, cs))) \<and>
         set (coords (leg w h dx dy n (x, y, cs))) \<subseteq> box w h \<and>
         (w * h \<le> int (length (coords (leg w h dx dy n (x, y, cs)))) \<or>
          (fst (leg w h dx dy n (x, y, cs)) = x + int n * dx \<and>
           fst (snd (leg w h dx dy n (x, y, cs))) = y + int n * dy \<and>
           set (coords (leg w h dx dy n (x, y, cs))) = set cs \<union> (seg x y dx dy n \<inter> box w h)))"
  using assms
proof (induction n arbitrary: x y cs)
  case 0
  then show ?case by (simp add: coords_def seg_0)
next
  case (Suc n)
  let ?x = "x + dx" and ?y = "y + dy"
  let ?cs = "if 0 \<le> ?x \<and> ?x < w \<and> 0 \<le> ?y \<and> ?y < h then cs @ [(?x, ?y)] else cs"
  have new: "(?x, ?y) \<notin> set cs"
    using Suc.prems(3) by (auto simp: seg_Suc)
  have d: "distinct ?cs" using Suc.prems(1) new by simp
  have sub: "set ?cs \<subseteq> box w h" using Suc.prems(2) by (auto simp: box_def)
  have setcs: "set ?cs = set cs \<union> ({(?x, ?y)} \<inter> box w h)"
    by (auto simp: box_def)
  have disj: "seg ?x ?y dx dy n \<inter> set ?cs = {}"
  proof -
    have "seg ?x ?y dx dy n \<inter> set cs = {}" using Suc.prems(3) by (auto simp: seg_Suc)
    moreover have "(?x, ?y) \<notin> seg ?x ?y dx dy n" by (rule seg_not_start [OF Suc.prems(4)])
    ultimately show ?thesis by auto
  qed
  show ?case
  proof (cases "w * h \<le> int (length ?cs)")
    case True
    then have "leg w h dx dy (Suc n) (x, y, cs) = (?x, ?y, ?cs)" by (simp add: Let_def)
    then show ?thesis using d sub True by (simp add: coords_def)
  next
    case False
    then have eq: "leg w h dx dy (Suc n) (x, y, cs) = leg w h dx dy n (?x, ?y, ?cs)"
      by (simp add: Let_def)
    have un: "set ?cs \<union> (seg ?x ?y dx dy n \<inter> box w h) = set cs \<union> (seg x y dx dy (Suc n) \<inter> box w h)"
      unfolding setcs seg_Suc by blast
    have ar: "?x + int n * dx = x + int (Suc n) * dx" "?y + int n * dy = y + int (Suc n) * dy"
      by (simp_all add: algebra_simps)
    from Suc.IH [OF d sub disj Suc.prems(4)]
    show ?thesis unfolding eq un ar .
  qed
qed

lemma card_box: "0 \<le> w \<Longrightarrow> 0 \<le> h \<Longrightarrow> int (card (box w h)) = w * h"
  by (simp add: box_def card_cartesian_product)

lemma full_list:
  assumes "0 \<le> w" and "0 \<le> h" and "distinct cs" and "set cs \<subseteq> box w h"
      and "w * h \<le> int (length cs)"
  shows "int (length cs) = w * h \<and> set cs = box w h"
proof -
  have fin: "finite (box w h)" by (simp add: box_def)
  have "card (set cs) = length cs" using assms(3) by (rule distinct_card)
  moreover have "card (set cs) \<le> card (box w h)" using assms(4) fin by (rule card_mono [rotated])
  ultimately have le: "int (length cs) \<le> w * h" using card_box [OF assms(1,2)] by linarith
  with assms(5) have len: "int (length cs) = w * h" by simp
  then have "card (set cs) = card (box w h)"
    using \<open>card (set cs) = length cs\<close> card_box [OF assms(1,2)] by linarith
  then have "set cs = box w h" using assms(4) fin by (simp add: card_subset_eq)
  with len show ?thesis by simp
qed

lemma hseg:
  assumes "d = 1 \<or> d = - 1"
  shows "seg x0 y0 d 0 n = {(x, y). y = y0 \<and> 1 \<le> d * (x - x0) \<and> d * (x - x0) \<le> int n}"
proof (rule set_eqI, rule iffI)
  fix p assume "p \<in> seg x0 y0 d 0 n"
  then obtain j where "p = (x0 + j * d, y0)" "1 \<le> j" "j \<le> int n" by (auto simp: seg_def)
  then show "p \<in> {(x, y). y = y0 \<and> 1 \<le> d * (x - x0) \<and> d * (x - x0) \<le> int n}"
    using assms by auto
next
  fix p assume "p \<in> {(x, y). y = y0 \<and> 1 \<le> d * (x - x0) \<and> d * (x - x0) \<le> int n}"
  then obtain x where p: "p = (x, y0)" "1 \<le> d * (x - x0)" "d * (x - x0) \<le> int n" by auto
  have "x = x0 + (d * (x - x0)) * d" using assms by auto
  then have "p = (x0 + (d * (x - x0)) * d, y0 + (d * (x - x0)) * 0)" using p(1) by simp
  then show "p \<in> seg x0 y0 d 0 n" unfolding seg_def using p(2,3) by blast
qed

lemma vseg:
  assumes "d = 1 \<or> d = - 1"
  shows "seg x0 y0 0 d n = {(x, y). x = x0 \<and> 1 \<le> d * (y - y0) \<and> d * (y - y0) \<le> int n}"
proof (rule set_eqI, rule iffI)
  fix p assume "p \<in> seg x0 y0 0 d n"
  then obtain j where "p = (x0, y0 + j * d)" "1 \<le> j" "j \<le> int n" by (auto simp: seg_def)
  then show "p \<in> {(x, y). x = x0 \<and> 1 \<le> d * (y - y0) \<and> d * (y - y0) \<le> int n}"
    using assms by auto
next
  fix p assume "p \<in> {(x, y). x = x0 \<and> 1 \<le> d * (y - y0) \<and> d * (y - y0) \<le> int n}"
  then obtain y where p: "p = (x0, y)" "1 \<le> d * (y - y0)" "d * (y - y0) \<le> int n" by auto
  have "y = y0 + (d * (y - y0)) * d" using assms by auto
  then have "p = (x0 + (d * (y - y0)) * 0, y0 + (d * (y - y0)) * d)" using p(1) by simp
  then show "p \<in> seg x0 y0 0 d n" unfolding seg_def using p(2,3) by blast
qed

lemma rel_minus: "d = 1 \<or> d = - 1 \<Longrightarrow> d * (x - (c - d * k)) = d * (x - c) + (k::int)"
  by (auto simp: algebra_simps)

lemma rel_plus: "d = 1 \<or> d = - 1 \<Longrightarrow> d * (x - (c + d * k)) = d * (x - c) - (k::int)"
  by (auto simp: algebra_simps)

lemma rel_eq_minus: "d = 1 \<or> d = - 1 \<Longrightarrow> (y = c - d * k) \<longleftrightarrow> (d * (y - c) = - (k::int))"
  by auto

lemma rel_eq_plus: "d = 1 \<or> d = - 1 \<Longrightarrow> (y = c + d * k) \<longleftrightarrow> (d * (y - c) = (k::int))"
  by auto

lemma leg1_eq:
  assumes "d = 1 \<or> d = - 1"
  shows "leg1 d cx cy i = {(x, y). d * (y - cy) = - int i \<and> - int i < d * (x - cx) \<and> d * (x - cx) \<le> int i + 1}"
proof -
  have "leg1 d cx cy i = {(x, y). d * (y - cy) = - int i \<and> 1 \<le> d * (x - cx) + int i \<and>
                                  d * (x - cx) + int i \<le> int (2 * i + 1)}"
    unfolding leg1_def hseg [OF assms] rel_minus [OF assms] rel_eq_minus [OF assms] ..
  also have "\<dots> = {(x, y). d * (y - cy) = - int i \<and> - int i < d * (x - cx) \<and> d * (x - cx) \<le> int i + 1}"
    by (intro Collect_cong) (simp add: split_paired_all, linarith)
  finally show ?thesis .
qed

lemma leg2_eq:
  assumes "d = 1 \<or> d = - 1"
  shows "leg2 d cx cy i = {(x, y). d * (x - cx) = int i + 1 \<and> - int i < d * (y - cy) \<and> d * (y - cy) \<le> int i + 1}"
proof -
  have "leg2 d cx cy i = {(x, y). d * (x - cx) = int i + 1 \<and> 1 \<le> d * (y - cy) + int i \<and>
                                  d * (y - cy) + int i \<le> int (2 * i + 1)}"
    unfolding leg2_def vseg [OF assms] rel_minus [OF assms] rel_eq_plus [OF assms] ..
  also have "\<dots> = {(x, y). d * (x - cx) = int i + 1 \<and> - int i < d * (y - cy) \<and> d * (y - cy) \<le> int i + 1}"
    by (intro Collect_cong) (simp add: split_paired_all, linarith)
  finally show ?thesis .
qed

lemma neg_rel_plus: "d = 1 \<or> d = - 1 \<Longrightarrow> - d * (x - (c + d * k)) = k - d * (x - (c::int))"
  by (auto simp: algebra_simps)

lemma leg3_eq:
  assumes "d = 1 \<or> d = - 1"
  shows "leg3 d cx cy i = {(x, y). d * (y - cy) = int i + 1 \<and> - int i - 1 \<le> d * (x - cx) \<and> d * (x - cx) < int i + 1}"
proof -
  have m: "- d = 1 \<or> - d = - 1" using assms by auto
  have "leg3 d cx cy i = {(x, y). d * (y - cy) = int i + 1 \<and> 1 \<le> int i + 1 - d * (x - cx) \<and>
                                  int i + 1 - d * (x - cx) \<le> int (2 * i + 2)}"
    unfolding leg3_def hseg [OF m] neg_rel_plus [OF assms] rel_eq_plus [OF assms] ..
  also have "\<dots> = {(x, y). d * (y - cy) = int i + 1 \<and> - int i - 1 \<le> d * (x - cx) \<and> d * (x - cx) < int i + 1}"
    by (intro Collect_cong) (simp add: split_paired_all, linarith)
  finally show ?thesis .
qed

lemma leg4_eq:
  assumes "d = 1 \<or> d = - 1"
  shows "leg4 d cx cy i = {(x, y). d * (x - cx) = - int i - 1 \<and> - int i - 1 \<le> d * (y - cy) \<and> d * (y - cy) < int i + 1}"
proof -
  have m: "- d = 1 \<or> - d = - 1" using assms by auto
  have e: "(x = cx - d * (int i + 1)) \<longleftrightarrow> (d * (x - cx) = - int i - 1)" for x
    using rel_eq_minus [OF assms, of x cx "int i + 1"] by simp
  have "leg4 d cx cy i = {(x, y). d * (x - cx) = - int i - 1 \<and> 1 \<le> int i + 1 - d * (y - cy) \<and>
                                  int i + 1 - d * (y - cy) \<le> int (2 * i + 2)}"
    unfolding leg4_def vseg [OF m] neg_rel_plus [OF assms] e ..
  also have "\<dots> = {(x, y). d * (x - cx) = - int i - 1 \<and> - int i - 1 \<le> d * (y - cy) \<and> d * (y - cy) < int i + 1}"
    by (intro Collect_cong) (simp add: split_paired_all, linarith)
  finally show ?thesis .
qed

lemma leg1_disj: "d = 1 \<or> d = - 1 \<Longrightarrow> leg1 d cx cy i \<inter> visited d cx cy i = {}"
  unfolding leg1_eq visited_def by auto

lemma leg2_disj:
  "d = 1 \<or> d = - 1 \<Longrightarrow> leg2 d cx cy i \<inter> (visited d cx cy i \<union> leg1 d cx cy i) = {}"
  unfolding leg1_eq leg2_eq visited_def by auto

lemma leg3_disj:
  "d = 1 \<or> d = - 1 \<Longrightarrow>
   leg3 d cx cy i \<inter> (visited d cx cy i \<union> leg1 d cx cy i \<union> leg2 d cx cy i) = {}"
  unfolding leg1_eq leg2_eq leg3_eq visited_def by auto

lemma leg4_disj:
  "d = 1 \<or> d = - 1 \<Longrightarrow>
   leg4 d cx cy i \<inter> (visited d cx cy i \<union> leg1 d cx cy i \<union> leg2 d cx cy i \<union> leg3 d cx cy i) = {}"
  unfolding leg1_eq leg2_eq leg3_eq leg4_eq visited_def by auto

lemma arith_step:
  fixes a b :: int
  shows "((((((\<bar>a\<bar> \<le> int i \<and> - int i < b \<and> b \<le> int i) \<or> (a = - int i \<and> b = - int i)) \<or>
            (b = - int i \<and> - int i < a \<and> a \<le> int i + 1)) \<or>
            (a = int i + 1 \<and> - int i < b \<and> b \<le> int i + 1)) \<or>
            (b = int i + 1 \<and> - int i - 1 \<le> a \<and> a < int i + 1)) \<or>
            (a = - int i - 1 \<and> - int i - 1 \<le> b \<and> b < int i + 1))
        \<longleftrightarrow> ((\<bar>a\<bar> \<le> int i + 1 \<and> - int i - 1 < b \<and> b \<le> int i + 1) \<or>
                     (a = - int i - 1 \<and> b = - int i - 1))"
  by presburger

lemma visited_Suc:
  assumes "d = 1 \<or> d = - 1"
  shows "visited d cx cy i \<union> leg1 d cx cy i \<union> leg2 d cx cy i \<union> leg3 d cx cy i \<union> leg4 d cx cy i
     = visited d cx cy (Suc i)"
proof (rule set_eqI)
  fix p :: "int \<times> int"
  obtain x y where p: "p = (x, y)" by (cases p)
  define a where "a = d * (x - cx)"
  define b where "b = d * (y - cy)"
  have v: "p \<in> visited d cx cy i \<longleftrightarrow>
             (\<bar>a\<bar> \<le> int i \<and> - int i < b \<and> b \<le> int i) \<or> (a = - int i \<and> b = - int i)"
    unfolding visited_def p a_def b_def by simp
  have l1: "p \<in> leg1 d cx cy i \<longleftrightarrow> (b = - int i \<and> - int i < a \<and> a \<le> int i + 1)"
    unfolding leg1_eq [OF assms] p a_def b_def by simp
  have l2: "p \<in> leg2 d cx cy i \<longleftrightarrow> (a = int i + 1 \<and> - int i < b \<and> b \<le> int i + 1)"
    unfolding leg2_eq [OF assms] p a_def b_def by simp
  have l3: "p \<in> leg3 d cx cy i \<longleftrightarrow> (b = int i + 1 \<and> - int i - 1 \<le> a \<and> a < int i + 1)"
    unfolding leg3_eq [OF assms] p a_def b_def by simp
  have l4: "p \<in> leg4 d cx cy i \<longleftrightarrow> (a = - int i - 1 \<and> - int i - 1 \<le> b \<and> b < int i + 1)"
    unfolding leg4_eq [OF assms] p a_def b_def by simp
  have v': "p \<in> visited d cx cy (Suc i) \<longleftrightarrow>
             (\<bar>a\<bar> \<le> int i + 1 \<and> - int i - 1 < b \<and> b \<le> int i + 1) \<or> (a = - int i - 1 \<and> b = - int i - 1)"
  proof -
    have e: "int (Suc i) = int i + 1" "- int (Suc i) = - int i - 1" by simp_all
    show ?thesis unfolding visited_def p a_def b_def e by simp
  qed
  show "p \<in> visited d cx cy i \<union> leg1 d cx cy i \<union> leg2 d cx cy i \<union> leg3 d cx cy i \<union> leg4 d cx cy i
        \<longleftrightarrow> p \<in> visited d cx cy (Suc i)"
    unfolding Un_iff v l1 l2 l3 l4 v' by (rule arith_step)
qed

lemma visited_0: "d = 1 \<or> d = - 1 \<Longrightarrow> visited d cx cy 0 = {(cx, cy)}"
  unfolding visited_def by auto

lemma box_visited:
  assumes "d = 1 \<or> d = - 1" and "w + h \<le> int i"
  shows "box w h \<subseteq> visited d (w div 2) (h div 2) i"
proof
  fix p assume "p \<in> box w h"
  then obtain x y where p: "p = (x, y)" "0 \<le> x" "x < w" "0 \<le> y" "y < h"
    by (auto simp: box_def)
  have c: "0 \<le> w div 2" "w div 2 \<le> w" "0 \<le> h div 2" "h div 2 \<le> h" using p by simp_all
  have x: "\<bar>x - w div 2\<bar> \<le> int i" using assms(2) p c by linarith
  have y: "\<bar>y - h div 2\<bar> < int i" using assms(2) p c by linarith
  have "\<bar>d * (x - w div 2)\<bar> = \<bar>x - w div 2\<bar>" "\<bar>d * (y - h div 2)\<bar> = \<bar>y - h div 2\<bar>"
    using assms(1) by (auto simp: abs_mult)
  with x y have "\<bar>d * (x - w div 2)\<bar> \<le> int i" "\<bar>d * (y - h div 2)\<bar> < int i" by simp_all
  then have "\<bar>d * (x - w div 2)\<bar> \<le> int i \<and> - int i < d * (y - h div 2) \<and> d * (y - h div 2) \<le> int i"
    by linarith
  then show "p \<in> visited d (w div 2) (h div 2) i"
    unfolding visited_def p by simp
qed

lemma leg_step:
  assumes "distinct (coords s)" and "set (coords s) = box w h \<inter> V"
      and "seg (fst s) (fst (snd s)) dx dy n \<inter> V = {}" and "dx \<noteq> 0 \<or> dy \<noteq> 0"
  shows "distinct (coords (leg w h dx dy n s)) \<and>
         set (coords (leg w h dx dy n s)) \<subseteq> box w h \<and>
         (w * h \<le> int (length (coords (leg w h dx dy n s))) \<or>
          (fst (leg w h dx dy n s) = fst s + int n * dx \<and>
           fst (snd (leg w h dx dy n s)) = fst (snd s) + int n * dy \<and>
           set (coords (leg w h dx dy n s)) = box w h \<inter> (V \<union> seg (fst s) (fst (snd s)) dx dy n)))"
proof -
  obtain x y cs where s: "s = (x, y, cs)" by (cases s)
  have 1: "distinct cs" using assms(1) by (simp add: s coords_def)
  have 2: "set cs \<subseteq> box w h" using assms(2) by (simp add: s coords_def)
  have 3: "seg x y dx dy n \<inter> set cs = {}" using assms(2,3) by (auto simp: s coords_def)
  have e: "set cs \<union> (seg x y dx dy n \<inter> box w h) = box w h \<inter> (V \<union> seg x y dx dy n)"
    using assms(2) by (auto simp: s coords_def)
  from leg_inv [OF 1 2 3 assms(4)] show ?thesis
    unfolding e by (simp add: s)
qed

lemma complete_full:
  assumes "0 \<le> w" and "0 \<le> h" and "distinct cs" and "set cs \<subseteq> box w h"
      and "w * h \<le> int (length cs)"
  shows "complete w h cs"
  using full_list [OF assms] assms(3) by (simp add: complete_def)

lemma spiral_loop_done:
  "\<not> int (length (coords s)) < w * h \<Longrightarrow> spiral_loop w h cw step s = Some (coords s)"
  by (subst spiral_loop.simps) simp

lemma spiral_loop_unfold:
  fixes w h d :: int and i :: nat and cw :: bool and s :: "int \<times> int \<times> (int \<times> int) list"
  assumes "d = (if cw then 1 else - 1)" and "int (length (coords s)) < w * h"
  defines "s1 \<equiv> leg w h d 0 (2 * i + 1) s"
  defines "s2 \<equiv> leg w h 0 d (2 * i + 1) s1"
  defines "s3 \<equiv> leg w h (- d) 0 (2 * i + 2) s2"
  defines "s4 \<equiv> leg w h 0 (- d) (2 * i + 2) s3"
  shows "spiral_loop w h cw (2 * i + 1) s =
           (if w * h \<le> int (length (coords s1)) then Some (coords s1)
            else if w * h \<le> int (length (coords s2)) then Some (coords s2)
            else if w * h \<le> int (length (coords s3)) then Some (coords s3)
            else if w * h \<le> int (length (coords s4)) then Some (coords s4)
            else spiral_loop w h cw (2 * Suc i + 1) s4)"
proof -
  have n: "2 * i + 1 + 1 = 2 * i + 2" "2 * i + 2 + 1 = 2 * Suc i + 1" by simp_all
  show ?thesis
  proof (cases cw)
    case True
    then have d: "d = 1" using assms(1) by simp
    show ?thesis
      by (subst spiral_loop.simps)
         (simp only: Let_def s1_def s2_def s3_def s4_def d True if_True n assms(2) not_True_eq_False if_False not_not)
  next
    case False
    then have d: "d = - 1" using assms(1) by simp
    have m: "- (- 1) = (1::int)" by simp
    show ?thesis
      by (subst spiral_loop.simps)
         (simp only: Let_def s1_def s2_def s3_def s4_def d False if_False n assms(2) not_True_eq_False not_not m)
  qed
qed

lemma spiral_loop_round:
  fixes w h d :: int and i :: nat and cw :: bool and s :: "int \<times> int \<times> (int \<times> int) list"
  assumes w: "0 \<le> w" and h: "0 \<le> h" and d: "d = (if cw then 1 else - 1)"
      and inv: "spiral_inv w h d i s" and less: "int (length (coords s)) < w * h"
  shows "(\<exists>res. spiral_loop w h cw (2 * i + 1) s = Some res \<and> complete w h res) \<or>
         (\<exists>s'. spiral_loop w h cw (2 * i + 1) s = spiral_loop w h cw (2 * Suc i + 1) s' \<and>
               spiral_inv w h d (Suc i) s')"
proof -
  define cx where "cx = w div 2"
  define cy where "cy = h div 2"
  define V where "V = visited d cx cy i"
  define s1 where "s1 = leg w h d 0 (2 * i + 1) s"
  define s2 where "s2 = leg w h 0 d (2 * i + 1) s1"
  define s3 where "s3 = leg w h (- d) 0 (2 * i + 2) s2"
  define s4 where "s4 = leg w h 0 (- d) (2 * i + 2) s3"
  have d1: "d = 1 \<or> d = - 1" using d by simp
  have dn: "d \<noteq> 0" "- d \<noteq> 0" using d1 by auto
  have unf: "spiral_loop w h cw (2 * i + 1) s =
           (if w * h \<le> int (length (coords s1)) then Some (coords s1)
            else if w * h \<le> int (length (coords s2)) then Some (coords s2)
            else if w * h \<le> int (length (coords s3)) then Some (coords s3)
            else if w * h \<le> int (length (coords s4)) then Some (coords s4)
            else spiral_loop w h cw (2 * Suc i + 1) s4)"
    unfolding s1_def s2_def s3_def s4_def by (rule spiral_loop_unfold [OF d less])
  have p0: "fst s = cx - d * int i" "fst (snd s) = cy - d * int i" "distinct (coords s)"
           "set (coords s) = box w h \<inter> V"
    using inv by (simp_all add: spiral_inv_def cx_def cy_def V_def)
  have g1: "seg (fst s) (fst (snd s)) d 0 (2 * i + 1) = leg1 d cx cy i"
    by (simp add: p0 leg1_def)
  have j1: "seg (fst s) (fst (snd s)) d 0 (2 * i + 1) \<inter> V = {}"
    unfolding g1 V_def by (rule leg1_disj [OF d1])
  have nz1: "d \<noteq> 0 \<or> (0::int) \<noteq> 0" using dn by simp
  have q1: "distinct (coords s1) \<and> set (coords s1) \<subseteq> box w h \<and>
         (w * h \<le> int (length (coords s1)) \<or>
          (fst s1 = fst s + int (2 * i + 1) * d \<and> fst (snd s1) = fst (snd s) + int (2 * i + 1) * 0 \<and>
           set (coords s1) = box w h \<inter> (V \<union> leg1 d cx cy i)))"
    unfolding s1_def g1 [symmetric]
    by (rule leg_step [OF p0(3,4) j1 nz1])
  show ?thesis
  proof (cases "w * h \<le> int (length (coords s1))")
    case True
    then have "complete w h (coords s1)" using q1 by (simp add: complete_full [OF w h])
    then show ?thesis using True unf by simp
  next
    case n1: False
    then have p1: "fst s1 = cx + d * (int i + 1)" "fst (snd s1) = cy - d * int i"
        "distinct (coords s1)" "set (coords s1) = box w h \<inter> (V \<union> leg1 d cx cy i)"
      using q1 p0(1,2) by (simp_all add: algebra_simps)
    have g2: "seg (fst s1) (fst (snd s1)) 0 d (2 * i + 1) = leg2 d cx cy i"
      by (simp add: p1 leg2_def)
    have j2: "seg (fst s1) (fst (snd s1)) 0 d (2 * i + 1) \<inter> (V \<union> leg1 d cx cy i) = {}"
      unfolding g2 V_def by (rule leg2_disj [OF d1])
    have nz2: "(0::int) \<noteq> 0 \<or> d \<noteq> 0" using dn by simp
    have q2: "distinct (coords s2) \<and> set (coords s2) \<subseteq> box w h \<and>
         (w * h \<le> int (length (coords s2)) \<or>
          (fst s2 = fst s1 + int (2 * i + 1) * 0 \<and> fst (snd s2) = fst (snd s1) + int (2 * i + 1) * d \<and>
           set (coords s2) = box w h \<inter> ((V \<union> leg1 d cx cy i) \<union> leg2 d cx cy i)))"
      unfolding s2_def g2 [symmetric]
      by (rule leg_step [OF p1(3,4) j2 nz2])
    show ?thesis
    proof (cases "w * h \<le> int (length (coords s2))")
      case True
      then have "complete w h (coords s2)" using q2 by (simp add: complete_full [OF w h])
      then show ?thesis using True n1 unf by simp
    next
      case n2: False
      then have p2: "fst s2 = cx + d * (int i + 1)" "fst (snd s2) = cy + d * (int i + 1)"
          "distinct (coords s2)"
          "set (coords s2) = box w h \<inter> (V \<union> leg1 d cx cy i \<union> leg2 d cx cy i)"
        using q2 p1(1,2) by (simp_all add: algebra_simps)
      have g3: "seg (fst s2) (fst (snd s2)) (- d) 0 (2 * i + 2) = leg3 d cx cy i"
        by (simp add: p2 leg3_def)
      have j3: "seg (fst s2) (fst (snd s2)) (- d) 0 (2 * i + 2) \<inter> (V \<union> leg1 d cx cy i \<union> leg2 d cx cy i) = {}"
        unfolding g3 V_def by (rule leg3_disj [OF d1])
      have nz3: "(- d) \<noteq> 0 \<or> (0::int) \<noteq> 0" using dn by simp
      have q3: "distinct (coords s3) \<and> set (coords s3) \<subseteq> box w h \<and>
         (w * h \<le> int (length (coords s3)) \<or>
          (fst s3 = fst s2 + int (2 * i + 2) * (- d) \<and> fst (snd s3) = fst (snd s2) + int (2 * i + 2) * 0 \<and>
           set (coords s3) = box w h \<inter> ((V \<union> leg1 d cx cy i \<union> leg2 d cx cy i) \<union> leg3 d cx cy i)))"
        unfolding s3_def g3 [symmetric]
        by (rule leg_step [OF p2(3,4) j3 nz3])
      show ?thesis
      proof (cases "w * h \<le> int (length (coords s3))")
        case True
        then have "complete w h (coords s3)" using q3 by (simp add: complete_full [OF w h])
        then show ?thesis using True n1 n2 unf by simp
      next
        case n3: False
        then have p3: "fst s3 = cx - d * (int i + 1)" "fst (snd s3) = cy + d * (int i + 1)"
            "distinct (coords s3)"
            "set (coords s3) = box w h \<inter> (V \<union> leg1 d cx cy i \<union> leg2 d cx cy i \<union> leg3 d cx cy i)"
          using q3 p2(1,2) by (simp_all add: algebra_simps)
        have g4: "seg (fst s3) (fst (snd s3)) 0 (- d) (2 * i + 2) = leg4 d cx cy i"
          by (simp add: p3 leg4_def)
        have j4: "seg (fst s3) (fst (snd s3)) 0 (- d) (2 * i + 2) \<inter> (V \<union> leg1 d cx cy i \<union> leg2 d cx cy i \<union> leg3 d cx cy i) = {}"
          unfolding g4 V_def by (rule leg4_disj [OF d1])
        have nz4: "(0::int) \<noteq> 0 \<or> (- d) \<noteq> 0" using dn by simp
        have q4: "distinct (coords s4) \<and> set (coords s4) \<subseteq> box w h \<and>
         (w * h \<le> int (length (coords s4)) \<or>
          (fst s4 = fst s3 + int (2 * i + 2) * 0 \<and> fst (snd s4) = fst (snd s3) + int (2 * i + 2) * (- d) \<and>
           set (coords s4) = box w h \<inter>
             ((V \<union> leg1 d cx cy i \<union> leg2 d cx cy i \<union> leg3 d cx cy i) \<union> leg4 d cx cy i)))"
          unfolding s4_def g4 [symmetric]
          by (rule leg_step [OF p3(3,4) j4 nz4])
        show ?thesis
        proof (cases "w * h \<le> int (length (coords s4))")
          case True
          then have "complete w h (coords s4)" using q4 by (simp add: complete_full [OF w h])
          then show ?thesis using True n1 n2 n3 unf by simp
        next
          case n4: False
          then have p4: "fst s4 = cx - d * (int i + 1)" "fst (snd s4) = cy - d * (int i + 1)"
              "distinct (coords s4)"
              "set (coords s4) = box w h \<inter>
                 (V \<union> leg1 d cx cy i \<union> leg2 d cx cy i \<union> leg3 d cx cy i \<union> leg4 d cx cy i)"
            using q4 p3(1,2) by (simp_all add: algebra_simps)
          have "spiral_inv w h d (Suc i) s4"
            using p4 unfolding V_def visited_Suc [OF d1]
            by (simp add: spiral_inv_def cx_def cy_def)
          moreover have "spiral_loop w h cw (2 * i + 1) s = spiral_loop w h cw (2 * Suc i + 1) s4"
            using n1 n2 n3 n4 unf by simp
          ultimately show ?thesis by blast
        qed
      qed
    qed
  qed
qed

lemma spiral_loop_total:
  fixes w h d :: int and i :: nat and cw :: bool and s :: "int \<times> int \<times> (int \<times> int) list"
  assumes w: "0 \<le> w" and h: "0 \<le> h" and d: "d = (if cw then 1 else - 1)"
  shows "spiral_inv w h d i s \<Longrightarrow>
         \<exists>res. spiral_loop w h cw (2 * i + 1) s = Some res \<and> complete w h res"
proof (induction k \<equiv> "nat (w + h) - i" arbitrary: i s)
  case 0
  have d1: "d = 1 \<or> d = - 1" using d by simp
  from 0 have "w + h \<le> int i" by simp
  then have "box w h \<subseteq> visited d (w div 2) (h div 2) i" by (rule box_visited [OF d1])
  then have set: "set (coords s) = box w h" using 0(2) by (auto simp: spiral_inv_def)
  have dist: "distinct (coords s)" using 0(2) by (simp add: spiral_inv_def)
  have "int (length (coords s)) = w * h"
    using distinct_card [OF dist] card_box [OF w h] set by simp
  then have c: "complete w h (coords s)" using dist set by (simp add: complete_def)
  have "\<not> int (length (coords s)) < w * h" using \<open>int (length (coords s)) = w * h\<close> by simp
  then have "spiral_loop w h cw (2 * i + 1) s = Some (coords s)" by (rule spiral_loop_done)
  with c show ?case by simp
next
  case (Suc k)
  show ?case
  proof (cases "int (length (coords s)) < w * h")
    case False
    have dist: "distinct (coords s)" and sub: "set (coords s) \<subseteq> box w h"
      using Suc.prems by (simp_all add: spiral_inv_def)
    from False have "w * h \<le> int (length (coords s))" by simp
    then have "complete w h (coords s)" by (rule complete_full [OF w h dist sub])
    moreover have "spiral_loop w h cw (2 * i + 1) s = Some (coords s)"
      using False by (rule spiral_loop_done)
    ultimately show ?thesis by simp
  next
    case True
    from spiral_loop_round [OF w h d Suc.prems True]
    show ?thesis
    proof
      assume "\<exists>res. spiral_loop w h cw (2 * i + 1) s = Some res \<and> complete w h res"
      then show ?thesis .
    next
      assume "\<exists>s'. spiral_loop w h cw (2 * i + 1) s = spiral_loop w h cw (2 * Suc i + 1) s' \<and>
               spiral_inv w h d (Suc i) s'"
      then obtain s' where s': "spiral_loop w h cw (2 * i + 1) s = spiral_loop w h cw (2 * Suc i + 1) s'"
          "spiral_inv w h d (Suc i) s'" by blast
      have "k = nat (w + h) - Suc i" using Suc.hyps(2) by simp
      from Suc.hyps(1) [OF this s'(2)] show ?thesis unfolding s'(1) .
    qed
  qed
qed

text \<open>
  C1. For every width and height of at least 1 and both directions,
  \<open>generate_spiral_coordinates\<close> returns, and the list it returns has exactly
  \<open>width * height\<close> coordinates, without duplicates, which are exactly the pixels
  \<open>(x, y)\<close> with \<open>0 \<le> x < width\<close> and \<open>0 \<le> y < height\<close>: none is out of bounds and
  none is missing, for square and non-square images alike.
\<close>

theorem generate_spiral_coordinates_permutation:
  assumes "1 \<le> width" and "1 \<le> height"
  shows "\<exists>coordinates. generate_spiral_coordinates width height clockwise = Some coordinates \<and>
           int (length coordinates) = width * height \<and>
           distinct coordinates \<and>
           set coordinates = {0..<width} \<times> {0..<height}"
proof -
  define d :: int where "d = (if clockwise then 1 else - 1)"
  have d1: "d = 1 \<or> d = - 1" by (simp add: d_def)
  have w: "0 \<le> width" and h: "0 \<le> height" using assms by simp_all
  have "0 \<le> width div 2" "width div 2 < width" "0 \<le> height div 2" "height div 2 < height"
    using assms by linarith+
  then have c: "(width div 2, height div 2) \<in> box width height"
    by (simp add: box_def)
  have "spiral_inv width height d 0 (width div 2, height div 2, [(width div 2, height div 2)])"
    using c by (simp add: spiral_inv_def coords_def visited_0 [OF d1])
  from spiral_loop_total [OF w h d_def this]
  show ?thesis by (simp add: generate_spiral_coordinates_def complete_def box_def)
qed

theorem generate_spiral_coordinates_witness:
  "(1::int) \<le> 3 \<and> (1::int) \<le> 2 \<and>
   (\<exists>coordinates. generate_spiral_coordinates 3 2 False = Some coordinates \<and>
           int (length coordinates) = 3 * 2 \<and> distinct coordinates \<and>
           set coordinates = {0..<3} \<times> {0..<2})"
  using generate_spiral_coordinates_permutation [of 3 2 False] by simp

text \<open>Two non-square images, one in each direction.\<close>

lemma spiral_3_2_ccw:
  "generate_spiral_coordinates 3 2 False = Some [(1, 1), (0, 1), (0, 0), (1, 0), (2, 0), (2, 1)]"
  unfolding generate_spiral_coordinates_def
  by (subst spiral_loop.simps) (simp add: coords_def Let_def eval_nat_numeral)

lemma spiral_2_3_cw:
  "generate_spiral_coordinates 2 3 True = Some [(1, 1), (1, 2), (0, 2), (0, 1), (0, 0), (1, 0)]"
  unfolding generate_spiral_coordinates_def
  apply (subst spiral_loop.simps)
  apply (simp add: coords_def Let_def eval_nat_numeral)
  apply (subst spiral_loop.simps)
  apply (simp add: coords_def Let_def eval_nat_numeral)
  done

end
